theory Spec2Isabelle
  imports Main "HOL-Library.AList" "HOL-Library.While_Combinator"
begin

section \<open>The heap of CascadeLang (src/runtime/heap.ts)\<close>

text \<open>
  The runtime keeps every object in one heap: a forward store from object identifiers to
  objects, a registry of type schemas, and a reverse index from an object identifier to
  the set of fields that hold it. This theory embeds the class \<open>Heap\<close> and the two
  functions of the interpreter (src/runtime/interpreter.ts) that read a field and assign to an
  array index, and proves the properties of the cascade.

  Conventions of the embedding.
  \<^item> A JavaScript value (\<open>any\<close>) is a \<open>val\<close>. Numbers are the integral doubles, as
    \<open>int\<close>; arithmetic on them is exact below \<open>2^53\<close>, and \<open>arrayPush\<close>, the one heap
    operation that computes with a stored number, says so. \<open>null\<close> and \<open>undefined\<close> are
    two values, as in the source (\<open>value === null\<close>, \<open>prev !== undefined\<close>). \<open>VFun\<close> is a
    function value of the interpreter, which the heap stores like any other value that is
    not a number.
  \<^item> A \<open>Map\<close> (\<open>objects\<close>, \<open>types\<close>, \<open>incoming\<close>, \<open>obj.fields\<close>) is an association list in
    insertion order with \<open>map_of\<close>, \<open>AList.update\<close> and \<open>AList.delete\<close> for \<open>get\<close>, \<open>set\<close> and
    \<open>delete\<close>: a heap is finite and its parts can be listed.
  \<^item> A \<open>Set<string>\<close> of the reverse index is a list without repetition in insertion
    order. Its elements are the strings \<open>`${id}.${key}`\<close>; the embedding keeps such a
    string as the pair \<open>(id, key)\<close>. The decimal form of an integer has no dot, so the
    string and the pair determine each other, and \<open>parentKey.split(".")\<close> yields the
    decimal form of \<open>id\<close> first and, second, the part of \<open>key\<close> before its first dot
    (\<open>fieldName_of\<close>).
  \<^item> Every method mutates \<open>this\<close>; the embedding passes the heap and returns the new one.
\<close>

subsection \<open>Data\<close>

type_synonym ObjectId = int

datatype val = VNum int | VBool bool | VStr string | VNull | VUndef | VFun nat

record FieldSpec =
  fname :: string
  optional :: bool

record TypeSpec =
  tname :: string
  tfields :: "FieldSpec list"

record HeapObject =
  oid :: ObjectId
  typeName :: "string option"
  obj_fields :: "(string \<times> val) list"

type_synonym ParentKey = "ObjectId \<times> string"

record Heap =
  nextId :: ObjectId
  objects :: "(ObjectId \<times> HeapObject) list"
  types :: "(string \<times> TypeSpec) list"
  incoming :: "(ObjectId \<times> ParentKey list) list"

definition empty_heap :: Heap where
  "empty_heap = \<lparr>nextId = 1, objects = [], types = [], incoming = []\<rparr>"

subsection \<open>Sets of parent keys, decimal strings\<close>

definition set_add :: "'a \<Rightarrow> 'a list \<Rightarrow> 'a list" where
  "set_add x xs = (if x \<in> set xs then xs else xs @ [x])"

definition set_delete :: "'a \<Rightarrow> 'a list \<Rightarrow> 'a list" where
  "set_delete x xs = removeAll x xs"

definition digit_char :: "nat \<Rightarrow> char" where
  "digit_char d = char_of (48 + d)"

definition decimal_value :: "string \<Rightarrow> nat" where
  "decimal_value s = foldl (\<lambda>a c. 10 * a + (of_char c - 48)) 0 s"

fun dec :: "nat \<Rightarrow> string" where
  "dec n = (if n < 10 then [digit_char n] else dec (n div 10) @ [digit_char (n mod 10)])"

declare dec.simps [simp del]

definition String_num :: "int \<Rightarrow> string" where
  "String_num i = (if i < 0 then CHR ''-'' # dec (nat (- i)) else dec (nat i))"

definition fieldName_of :: "string \<Rightarrow> string" where
  "fieldName_of key = takeWhile (\<lambda>c. c \<noteq> CHR ''.'') key"

subsection \<open>Reading\<close>

definition getObject :: "Heap \<Rightarrow> ObjectId \<Rightarrow> HeapObject option" where
  "getObject h i = map_of (objects h) i"

definition has_object :: "Heap \<Rightarrow> ObjectId \<Rightarrow> bool" where
  "has_object h i = (getObject h i \<noteq> None)"

definition fields_get :: "HeapObject \<Rightarrow> string \<Rightarrow> val" where
  "fields_get obj name = (case map_of (obj_fields obj) name of None \<Rightarrow> VUndef | Some v \<Rightarrow> v)"

definition getField :: "Heap \<Rightarrow> ObjectId \<Rightarrow> string \<Rightarrow> val" where
  "getField h i name = (case getObject h i of None \<Rightarrow> VUndef | Some obj \<Rightarrow> fields_get obj name)"

definition isFieldMandatory :: "Heap \<Rightarrow> string option \<Rightarrow> string \<Rightarrow> bool" where
  "isFieldMandatory h tn fieldName =
     (case tn of
        None \<Rightarrow> False
      | Some t \<Rightarrow>
          if t = [] then False
          else (case map_of (types h) t of
                  None \<Rightarrow> False
                | Some spec \<Rightarrow>
                    (case find (\<lambda>f. fname f = fieldName) (tfields spec) of
                       None \<Rightarrow> False
                     | Some f \<Rightarrow> \<not> optional f)))"

definition defineType :: "Heap \<Rightarrow> TypeSpec \<Rightarrow> Heap" where
  "defineType h spec = h\<lparr>types := AList.update (tname spec) spec (types h)\<rparr>"

subsection \<open>The reverse index\<close>

definition incoming_of :: "Heap \<Rightarrow> ObjectId \<Rightarrow> ParentKey list" where
  "incoming_of h c = (case map_of (incoming h) c of None \<Rightarrow> [] | Some s \<Rightarrow> s)"

fun trackIncomingIfObject :: "Heap \<Rightarrow> val \<Rightarrow> ParentKey \<Rightarrow> Heap" where
  "trackIncomingIfObject h (VNum n) parentKey =
     (if has_object h n
      then h\<lparr>incoming := AList.update n (set_add parentKey (incoming_of h n)) (incoming h)\<rparr>
      else h)"
| "trackIncomingIfObject h v parentKey = h"

fun untrackIncomingIfObject :: "Heap \<Rightarrow> val \<Rightarrow> ParentKey \<Rightarrow> Heap" where
  "untrackIncomingIfObject h (VNum n) parentKey =
     (if has_object h n
      then (case map_of (incoming h) n of
              None \<Rightarrow> h
            | Some s \<Rightarrow>
                (if set_delete parentKey s = []
                 then h\<lparr>incoming := AList.delete n (incoming h)\<rparr>
                 else h\<lparr>incoming := AList.update n (set_delete parentKey s) (incoming h)\<rparr>))
      else h)"
| "untrackIncomingIfObject h v parentKey = h"

subsection \<open>Writing\<close>

text \<open>\<open>obj.fields.set(key, value)\<close> on the object stored under \<open>i\<close>: the object is
  shared with the store, so the write is a write to the store.\<close>

definition fields_set :: "Heap \<Rightarrow> ObjectId \<Rightarrow> string \<Rightarrow> val \<Rightarrow> Heap" where
  "fields_set h i key v =
     h\<lparr>objects := AList.map_entry i (\<lambda>obj. obj\<lparr>obj_fields := AList.update key v (obj_fields obj)\<rparr>) (objects h)\<rparr>"

definition createObject :: "Heap \<Rightarrow> string option \<Rightarrow> (string \<times> val) list \<Rightarrow> Heap \<times> ObjectId" where
  "createObject h tn initial =
     (let i = nextId h;
          fs = fold (\<lambda>(k, v) acc. AList.update k v acc) initial [];
          obj = \<lparr>oid = i, typeName = tn, obj_fields = fs\<rparr>;
          h1 = h\<lparr>nextId := nextId h + 1, objects := AList.update i obj (objects h)\<rparr>;
          h2 = fold (\<lambda>(key, v) g. trackIncomingIfObject g v (i, key)) fs h1
      in (h2, i))"

definition createArray :: "Heap \<Rightarrow> val list \<Rightarrow> Heap \<times> ObjectId" where
  "createArray h elements =
     (let (h1, i) = createObject h (Some ''__array__'') [];
          h2 = fold (\<lambda>n g. trackIncomingIfObject (fields_set g i (dec n) (elements ! n))
                               (elements ! n) (i, dec n))
                 [0..<length elements] h1;
          h3 = fields_set h2 i ''length'' (VNum (int (length elements)))
      in (h3, i))"

subsection \<open>The cascade\<close>

text \<open>The body of the loop over the parent keys of \<open>cur\<close>: the state is the heap and the
  work stack \<open>toDelete\<close>, whose top is the head of the list.\<close>

definition cascadeParent :: "ParentKey \<Rightarrow> Heap \<times> ObjectId list \<Rightarrow> Heap \<times> ObjectId list" where
  "cascadeParent parentKey st =
     (let (h, toDelete) = st;
          (pid, key) = parentKey;
          fieldName = fieldName_of key
      in case getObject h pid of
           None \<Rightarrow> (h, toDelete)
         | Some parent \<Rightarrow>
             (let prev = fields_get parent fieldName;
                  h1 = fields_set h pid fieldName VNull;
                  h2 = untrackIncomingIfObject h1 prev parentKey;
                  isMandatory = isFieldMandatory h2 (typeName parent) fieldName
              in (h2, if isMandatory then pid # toDelete else toDelete)))"

text \<open>One object \<open>cur\<close> that is live and not yet visited: its parents, its outgoing
  references, its removal.\<close>

definition cascadeNode :: "Heap \<Rightarrow> ObjectId \<Rightarrow> ObjectId list \<Rightarrow> Heap \<times> ObjectId list" where
  "cascadeNode h cur toDelete =
     (let (h1, toDelete1) = fold cascadeParent (incoming_of h cur) (h, toDelete);
          fs = (case getObject h1 cur of None \<Rightarrow> [] | Some obj \<Rightarrow> obj_fields obj);
          h2 = fold (\<lambda>(k, v) g. untrackIncomingIfObject g v (cur, k)) fs h1;
          h3 = h2\<lparr>incoming := AList.delete cur (incoming h2)\<rparr>;
          h4 = h3\<lparr>objects := AList.delete cur (objects h3)\<rparr>
      in (h4, toDelete1))"

text \<open>One iteration of \<open>while (toDelete.length)\<close>, on a non-empty stack.\<close>

definition cascadeStep ::
  "Heap \<Rightarrow> ObjectId \<Rightarrow> ObjectId list \<Rightarrow> ObjectId set \<Rightarrow> Heap \<times> ObjectId list \<times> ObjectId set" where
  "cascadeStep h cur rest visited =
     (if cur \<in> visited then (h, rest, visited)
      else if \<not> has_object h cur then (h, rest, insert cur visited)
      else (let (h', toDelete') = cascadeNode h cur rest in (h', toDelete', insert cur visited)))"

text \<open>The loop \<open>while (toDelete.length)\<close> ends: an iteration that removes no object
  shortens the stack, and no iteration adds an object.\<close>

lemma objects_track [simp]: "objects (trackIncomingIfObject h v k) = objects h"
  by (cases v) auto

lemma objects_untrack [simp]: "objects (untrackIncomingIfObject h v k) = objects h"
  by (cases v) (auto split: option.splits)

lemma keys_map_entry [simp]: "map fst (AList.map_entry i f xs) = map fst xs"
  by (induction xs) auto

lemma keys_fields_set [simp]: "map fst (objects (fields_set h i k v)) = map fst (objects h)"
  by (simp add: fields_set_def)

lemma keys_cascadeParent [simp]:
  "map fst (objects (fst (cascadeParent pk st))) = map fst (objects (fst st))"
  by (cases st; cases pk) (auto simp: cascadeParent_def Let_def split: option.splits)

lemma keys_fold_cascadeParent [simp]:
  "map fst (objects (fst (fold cascadeParent pks st))) = map fst (objects (fst st))"
  by (induction pks arbitrary: st) auto

lemma objects_fold_untrack [simp]:
  "objects (fold (\<lambda>(k, v) g. untrackIncomingIfObject g v (c, k)) fs h) = objects h"
  by (induction fs arbitrary: h) auto

lemma keys_delete: "map fst (AList.delete k xs) = removeAll k (map fst xs)"
  by (induction xs) auto

lemma keys_cascadeNode:
  "map fst (objects (fst (cascadeNode h cur st))) = removeAll cur (map fst (objects h))"
proof -
  obtain h1 st1 where f: "fold cascadeParent (incoming_of h cur) (h, st) = (h1, st1)"
    by (cases "fold cascadeParent (incoming_of h cur) (h, st)")
  have "map fst (objects h1) = map fst (objects h)"
    using keys_fold_cascadeParent [of "incoming_of h cur" "(h, st)"] f by simp
  then show ?thesis
    by (simp add: cascadeNode_def f Let_def keys_delete)
qed

lemma has_object_keys: "has_object h i \<longleftrightarrow> i \<in> set (map fst (objects h))"
  by (simp add: has_object_def getObject_def map_of_eq_None_iff)

lemma length_removeAll_less: "x \<in> set xs \<Longrightarrow> length (removeAll x xs) < length xs"
  by (induction xs) (auto simp: less_Suc_eq_le)

lemma cascadeNode_shrinks:
  assumes "has_object h cur"
  shows "length (objects (fst (cascadeNode h cur st))) < length (objects h)"
proof -
  have "length (map fst (objects (fst (cascadeNode h cur st)))) < length (map fst (objects h))"
    unfolding keys_cascadeNode using assms
    by (intro length_removeAll_less) (simp add: has_object_keys)
  then show ?thesis by simp
qed

lemma cascadeStep_decreases:
  assumes "cascadeStep h cur rest visited = (h', st', vis')"
  shows "length (objects h') < length (objects h) \<or>
         (length (objects h') = length (objects h) \<and> length st' < Suc (length rest))"
proof (cases "cur \<in> visited \<or> \<not> has_object h cur")
  case True
  with assms show ?thesis by (auto simp: cascadeStep_def split: if_splits)
next
  case False
  then have "h' = fst (cascadeNode h cur rest)"
    using assms by (auto simp: cascadeStep_def split: prod.splits)
  with False show ?thesis using cascadeNode_shrinks [of h cur rest] by simp
qed

function cascadeLoop :: "Heap \<Rightarrow> ObjectId list \<Rightarrow> ObjectId set \<Rightarrow> Heap" where
  "cascadeLoop h [] visited = h"
| "cascadeLoop h (cur # rest) visited =
     (case cascadeStep h cur rest visited of (h', toDelete', visited') \<Rightarrow>
        cascadeLoop h' toDelete' visited')"
  by pat_completeness auto
termination
proof (relation "measures [\<lambda>(g, s, v). length (objects g), \<lambda>(g, s, v). length s]")
  fix h cur rest visited x y xa ya
  assume "(x, y) = cascadeStep h cur rest visited" "(xa, ya) = y"
  then have "cascadeStep h cur rest visited = (x, xa, ya)" by simp
  from cascadeStep_decreases [OF this]
  show "((x, xa, ya), (h, cur # rest, visited))
          \<in> measures [\<lambda>(g, s, v). length (objects g), \<lambda>(g, s, v). length s]"
    by auto
qed simp

definition deleteObjectCascade :: "Heap \<Rightarrow> ObjectId \<Rightarrow> Heap" where
  "deleteObjectCascade h i = cascadeLoop h [i] {}"

definition setField :: "Heap \<Rightarrow> ObjectId \<Rightarrow> string \<Rightarrow> val \<Rightarrow> bool \<Rightarrow> Heap" where
  "setField h parentId name v isMandatory =
     (case getObject h parentId of
        None \<Rightarrow> h
      | Some parent \<Rightarrow>
          (let key = (parentId, name);
               prev = fields_get parent name;
               h1 = (if prev \<noteq> VUndef then untrackIncomingIfObject h prev key else h)
           in if v = VNull \<and> isMandatory then deleteObjectCascade h1 parentId
              else trackIncomingIfObject (fields_set h1 parentId name v) v key))"

subsection \<open>Arrays, and the interpreter's reads and writes\<close>

text \<open>\<open>Number(obj.fields.get("length") ?? 0)\<close>. The result is \<open>None\<close> where the integral
  model of numbers does not follow the source: a string (JavaScript's numeric literal
  grammar), a function (\<open>NaN\<close>), or a magnitude from \<open>2^53\<close> on, where \<open>len + 1\<close> is rounded.\<close>

definition length_Number :: "HeapObject \<Rightarrow> int option" where
  "length_Number obj =
     (case map_of (obj_fields obj) ''length'' of
        None \<Rightarrow> Some 0
      | Some VUndef \<Rightarrow> Some 0
      | Some VNull \<Rightarrow> Some 0
      | Some (VNum n) \<Rightarrow> if \<bar>n\<bar> < 2 ^ 53 then Some n else None
      | Some (VBool b) \<Rightarrow> Some (if b then 1 else 0)
      | Some (VStr s) \<Rightarrow> None
      | Some (VFun f) \<Rightarrow> None)"

definition arrayPush :: "Heap \<Rightarrow> ObjectId \<Rightarrow> val \<Rightarrow> Heap option" where
  "arrayPush h i v =
     (case getObject h i of
        None \<Rightarrow> Some h
      | Some obj \<Rightarrow>
          if typeName obj \<noteq> Some ''__array__'' then Some h
          else (case length_Number obj of
                  None \<Rightarrow> None
                | Some len \<Rightarrow>
                    (let key = String_num len;
                         h1 = fields_set h i key v;
                         h2 = fields_set h1 i ''length'' (VNum (len + 1))
                     in Some (trackIncomingIfObject h2 v (i, key)))))"

text \<open>\<open>Interpreter.evalAccess\<close> and the \<open>IndexExpr\<close> branch of \<open>Interpreter.assignTo\<close>, after
  the evaluation of their subexpressions: \<open>base\<close>, \<open>idx\<close> and \<open>v\<close> are the values. The index is
  a number of the model; \<open>throw new Error(m)\<close> is \<open>Inl (Error m)\<close>. In \<open>assignIndex\<close>, \<open>obj1\<close> is
  \<open>obj\<close> after \<open>obj.fields.set(key, value)\<close>, from which the source reads \<open>length\<close>.\<close>

datatype error = Error string

definition nullish_null :: "val \<Rightarrow> val" where
  "nullish_null v = (if v = VNull \<or> v = VUndef then VNull else v)"

definition evalAccess :: "Heap \<Rightarrow> val \<Rightarrow> string \<Rightarrow> error + val" where
  "evalAccess h base prop =
     (case base of
        VNum b \<Rightarrow> Inr (nullish_null (getField h b prop))
      | _ \<Rightarrow> Inl (Error ''Property access on non-object''))"

definition assignIndex :: "Heap \<Rightarrow> val \<Rightarrow> int \<Rightarrow> val \<Rightarrow> (error + Heap) option" where
  "assignIndex h baseVal idx v =
     (case baseVal of
        VNum b \<Rightarrow>
          (case getObject h b of
             None \<Rightarrow> Some (Inl (Error ''Indexing non-array''))
           | Some obj \<Rightarrow>
               if typeName obj \<noteq> Some ''__array__'' then Some (Inl (Error ''Indexing non-array''))
               else (let key = String_num idx;
                         h1 = fields_set h b key v;
                         obj1 = obj\<lparr>obj_fields := AList.update key v (obj_fields obj)\<rparr>
                     in case length_Number obj1 of
                          None \<Rightarrow> None
                        | Some len \<Rightarrow>
                            Some (Inr (if idx \<ge> len then fields_set h1 b ''length'' (VNum (idx + 1))
                                       else h1))))
      | _ \<Rightarrow> Some (Inl (Error ''Indexing non-array'')))"


subsection \<open>The loop as a while loop\<close>

text \<open>One iteration of \<open>while (toDelete.length)\<close> as a function on the state of the loop,
  for \<open>while_option\<close>.\<close>

definition cascadeIter :: "Heap \<times> ObjectId list \<times> ObjectId set \<Rightarrow> Heap \<times> ObjectId list \<times> ObjectId set" where
  "cascadeIter s =
     (case s of
        (h, [], visited) \<Rightarrow> (h, [], visited)
      | (h, cur # rest, visited) \<Rightarrow> cascadeStep h cur rest visited)"

subsection \<open>The keys of the reverse index as strings\<close>

text \<open>The source builds the key \<open>`${id}.${key}`\<close> and takes it apart with
  \<open>const [pidStr, fieldName] = parentKey.split(".")\<close> and \<open>Number(pidStr)\<close>. These are the string,
  \<open>split(".")\<close>, and \<open>Number\<close> on the decimal strings; the lemmas on them below say that the pair
  \<open>(id, key)\<close> of the embedding stands for the string.\<close>

definition parentKey_string :: "ParentKey \<Rightarrow> string" where
  "parentKey_string parentKey = String_num (fst parentKey) @ ''.'' @ snd parentKey"

fun split_dot :: "string \<Rightarrow> string list" where
  "split_dot [] = [[]]"
| "split_dot (c # cs) =
     (if c = CHR ''.'' then [] # split_dot cs
      else (case split_dot cs of [] \<Rightarrow> [[c]] | s # ss \<Rightarrow> (c # s) # ss))"

definition Number_decimal :: "string \<Rightarrow> int" where
  "Number_decimal s =
     (case s of
        [] \<Rightarrow> 0
      | c # cs \<Rightarrow> if c = CHR ''-'' then - int (decimal_value cs) else int (decimal_value s))"

subsection \<open>Observations of a heap\<close>

text \<open>The live objects are the keys of the store.\<close>

definition live :: "Heap \<Rightarrow> ObjectId set" where
  "live h = fst ` set (objects h)"

text \<open>What the proofs observe of a heap: the slot \<open>field_of h q g\<close> of field \<open>g\<close> of object \<open>q\<close>
  (\<open>None\<close> when the object is dead or the field absent), the type name of an object, and
  whether a value passes the test \<open>typeof value === "number" && this.objects.has(value)\<close>
  of the reverse index for the object \<open>c\<close>.\<close>

definition field_of :: "Heap \<Rightarrow> ObjectId \<Rightarrow> string \<Rightarrow> val option" where
  "field_of h q g = (case getObject h q of None \<Rightarrow> None | Some obj \<Rightarrow> map_of (obj_fields obj) g)"

definition tyName :: "Heap \<Rightarrow> ObjectId \<Rightarrow> string option option" where
  "tyName h q = map_option typeName (getObject h q)"

definition refers :: "Heap \<Rightarrow> val \<Rightarrow> ObjectId \<Rightarrow> bool" where
  "refers h v c = (v = VNum c \<and> has_object h c)"

text \<open>Whether the cascade pushes the live parent \<open>p\<close> for the field name \<open>g\<close>.\<close>

definition mandatoryFor :: "Heap \<Rightarrow> ObjectId \<Rightarrow> string \<Rightarrow> bool" where
  "mandatoryFor h p g =
     (case getObject h p of None \<Rightarrow> False | Some parent \<Rightarrow> isFieldMandatory h (typeName parent) g)"

text \<open>The fields of an object, and the second half of \<open>cascadeNode\<close>: the outgoing references
  of \<open>cur\<close> are untracked and \<open>cur\<close> is removed from the reverse index and from the store.\<close>

definition fields_of :: "Heap \<Rightarrow> ObjectId \<Rightarrow> (string \<times> val) list" where
  "fields_of h q = (case getObject h q of None \<Rightarrow> [] | Some obj \<Rightarrow> obj_fields obj)"

definition severNode :: "Heap \<Rightarrow> ObjectId \<Rightarrow> Heap" where
  "severNode h1 cur =
     (let fs = (case getObject h1 cur of None \<Rightarrow> [] | Some obj \<Rightarrow> obj_fields obj);
          h2 = fold (\<lambda>(k, v) g. untrackIncomingIfObject g v (cur, k)) fs h1;
          h3 = h2\<lparr>incoming := AList.delete cur (incoming h2)\<rparr>
      in h3\<lparr>objects := AList.delete cur (objects h3)\<rparr>)"

text \<open>The fields that \<open>createObject\<close> installs from \<open>initial\<close>.\<close>

definition initialFields :: "(string \<times> val) list \<Rightarrow> (string \<times> val) list" where
  "initialFields initial = fold (\<lambda>(k, v) acc. AList.update k v acc) initial []"

subsection \<open>Mandatory back-edges\<close>

text \<open>A field name without a dot is the name that the cascade reads back from a key.\<close>

definition dotfree :: "string \<Rightarrow> bool" where
  "dotfree key = (CHR ''.'' \<notin> set key)"



text \<open>The mandatory back-edges as a list, read off the reverse index.\<close>

definition mandatoryEdgeList :: "Heap \<Rightarrow> (ObjectId \<times> ObjectId) list" where
  "mandatoryEdgeList h =
     concat (map (\<lambda>(c, es). map (\<lambda>(p, key). (c, p)) (filter (\<lambda>(p, key). mandatoryFor h p key) es))
               (incoming h))"

text \<open>The mandatory back-edges that the cascade follows without fail: the object referred to
  is live, the key names the field as the schema does (no dot), and the schema of the live
  holder marks the field mandatory.\<close>

definition recordedLinks :: "Heap \<Rightarrow> (ObjectId \<times> ObjectId \<times> string) set" where
  "recordedLinks h =
     {(c, p, key). c \<in> live h \<and> (p, key) \<in> set (incoming_of h c) \<and> mandatoryFor h p key \<and> dotfree key}"

text \<open>A later heap of a cascade, seen from the heap it started in: same registry, no new
  object, no new type name, no new back-edge.\<close>

definition shrunk :: "Heap \<Rightarrow> Heap \<Rightarrow> bool" where
  "shrunk h0 h \<longleftrightarrow>
     types h = types h0 \<and> live h \<subseteq> live h0 \<and> (\<forall>q \<in> live h. tyName h q = tyName h0 q) \<and>
     (\<forall>c. set (incoming_of h c) \<subseteq> set (incoming_of h0 c))"

subsection \<open>Cycles of mandatory fields\<close>

text \<open>A cycle is a list of holders with their linking fields: field \<open>f\<close> of the \<open>i\<close>-th object
  holds the identifier of the next object of the list, cyclically. \<open>mandatoryCycle\<close> says
  that the objects are live and every linking field is mandatory; \<open>recordedCycle\<close> that
  every link has its back-edge in the reverse index, under a name without a dot.\<close>

definition mandatoryCycle :: "Heap \<Rightarrow> (ObjectId \<times> string) list \<Rightarrow> bool" where
  "mandatoryCycle h ns \<longleftrightarrow>
     ns \<noteq> [] \<and>
     list_all (\<lambda>i. case ns ! i of (p, f) \<Rightarrow>
                 p \<in> live h \<and> getField h p f = VNum (fst (ns ! (Suc i mod length ns))) \<and>
                 mandatoryFor h p f)
       [0..<length ns]"

definition recordedCycle :: "Heap \<Rightarrow> (ObjectId \<times> string) list \<Rightarrow> bool" where
  "recordedCycle h ns \<longleftrightarrow>
     list_all (\<lambda>i. case ns ! i of (p, f) \<Rightarrow>
                 (p, f) \<in> set (incoming_of h (fst (ns ! (Suc i mod length ns)))) \<and> dotfree f)
       [0..<length ns]"

subsection \<open>The symmetry of fields and reverse index\<close>

text \<open>The invariant I1 of the specification, in its two halves: a field that holds the
  identifier of a live object has exactly one back-edge in the reverse index of that object;
  a back-edge \<open>(p, f)\<close> in the reverse index of \<open>c\<close> has \<open>p.f = c\<close> and \<open>c\<close> live. The heap has no
  tag on a value: the field holds an object identifier when it holds the number of a live
  object.\<close>

definition forwardRecorded :: "Heap \<Rightarrow> bool" where
  "forwardRecorded h \<longleftrightarrow>
     (\<forall>p f c. field_of h p f = Some (VNum c) \<and> c \<in> live h \<longrightarrow> count_list (incoming_of h c) (p, f) = 1)"

definition reverseHeld :: "Heap \<Rightarrow> bool" where
  "reverseHeld h \<longleftrightarrow>
     (\<forall>c p f. (p, f) \<in> set (incoming_of h c) \<longrightarrow> getField h p f = VNum c \<and> c \<in> live h)"

definition symmetric :: "Heap \<Rightarrow> bool" where
  "symmetric h \<longleftrightarrow> forwardRecorded h \<and> reverseHeld h"



text \<open>The operations of the evaluator binding surface, and a run of them. An operation that
  throws leaves the heap as it was; \<open>None\<close> is a run that leaves the integral model of
  numbers.\<close>

datatype operation =
    DefineType TypeSpec
  | CreateObject "string option" "(string \<times> val) list"
  | CreateArray "val list"
  | SetField ObjectId string val bool
  | ArrayPush ObjectId val
  | AssignIndex val int val

fun apply_op :: "Heap \<Rightarrow> operation \<Rightarrow> Heap option" where
  "apply_op h (DefineType spec) = Some (defineType h spec)"
| "apply_op h (CreateObject tn initial) = Some (fst (createObject h tn initial))"
| "apply_op h (CreateArray elements) = Some (fst (createArray h elements))"
| "apply_op h (SetField p name v m) = Some (setField h p name v m)"
| "apply_op h (ArrayPush a v) = arrayPush h a v"
| "apply_op h (AssignIndex b idx v) =
     (case assignIndex h b idx v of None \<Rightarrow> None | Some (Inl e) \<Rightarrow> Some h | Some (Inr h') \<Rightarrow> Some h')"

fun run :: "Heap \<Rightarrow> operation list \<Rightarrow> Heap option" where
  "run h [] = Some h"
| "run h (x # xs) = (case apply_op h x of None \<Rightarrow> None | Some h' \<Rightarrow> run h' xs)"








subsection \<open>Heaps and runs to test on\<close>

text \<open>The program of tests/cascade.test.ts up to its last statement:
  \<^verbatim>\<open>struct N { mandatory id, optional next, }
  let a = new N { id: 1 }
  let b = new N { id: 2 }
  a.next = b\<close>
  \<open>Interpreter.evalObject\<close> creates the object and then sets each property.\<close>

definition N :: TypeSpec where
  "N = \<lparr>tname = ''N'', tfields = [\<lparr>fname = ''id'', optional = False\<rparr>, \<lparr>fname = ''next'', optional = True\<rparr>]\<rparr>"

definition test_heap :: Heap where
  "test_heap =
     (let h0 = defineType empty_heap N;
          (h1, a) = createObject h0 (Some ''N'') [];
          h2 = setField h1 a ''id'' (VNum 1) True;
          (h3, b) = createObject h2 (Some ''N'') [];
          h4 = setField h3 b ''id'' (VNum 2) True
      in setField h4 a ''next'' (VNum b) False)"

text \<open>An object and the array \<open>[1]\<close>: the element is the number of the object.\<close>

definition array_heap :: Heap where
  "array_heap = fst (createArray (fst (createObject empty_heap None [])) [VNum 1])"



text \<open>Two programs over \<open>struct L { mandatory link }\<close>. The first is a cycle of two objects:
  \<^verbatim>\<open>let x = new L { }  let y = new L { }  x.link = y  y.link = x\<close>
  The second writes the number 2 into \<open>x.link\<close> before the object 2 exists:
  \<^verbatim>\<open>let x = new L { link: 2 }  let y = new L { link: x }\<close>\<close>

definition L :: TypeSpec where
  "L = \<lparr>tname = ''L'', tfields = [\<lparr>fname = ''link'', optional = False\<rparr>]\<rparr>"

definition cycle_heap :: Heap where
  "cycle_heap =
     (let h0 = defineType empty_heap L;
          (h1, x) = createObject h0 (Some ''L'') [];
          (h2, y) = createObject h1 (Some ''L'') [];
          h3 = setField h2 x ''link'' (VNum y) True
      in setField h3 y ''link'' (VNum x) True)"

definition early_number_heap :: Heap where
  "early_number_heap =
     (let h0 = defineType empty_heap L;
          (h1, x) = createObject h0 (Some ''L'') [];
          h2 = setField h1 x ''link'' (VNum 2) True;
          (h3, y) = createObject h2 (Some ''L'') []
      in setField h3 y ''link'' (VNum x) True)"


definition index_run :: "operation list" where
  "index_run = [CreateObject None [], CreateArray [], AssignIndex (VNum 2) 0 (VNum 1)]"


section \<open>Basic facts\<close>

lemma getObject_fields_set:
  "getObject (fields_set h i key v) j =
     (if j = i then map_option (\<lambda>obj. obj\<lparr>obj_fields := AList.update key v (obj_fields obj)\<rparr>) (getObject h i)
      else getObject h j)"
  by (auto simp: getObject_def fields_set_def map_of_map_entry split: option.splits)

lemma getObject_track [simp]: "getObject (trackIncomingIfObject h v k) = getObject h"
  by (rule ext) (simp add: getObject_def)

lemma getObject_untrack [simp]: "getObject (untrackIncomingIfObject h v k) = getObject h"
  by (rule ext) (simp add: getObject_def)

lemma has_object_track [simp]: "has_object (trackIncomingIfObject h v k) = has_object h"
  by (rule ext) (simp add: has_object_def)

lemma has_object_untrack [simp]: "has_object (untrackIncomingIfObject h v k) = has_object h"
  by (rule ext) (simp add: has_object_def)

lemma nextId_track [simp]: "nextId (trackIncomingIfObject h v k) = nextId h"
  by (cases v) auto

lemma nextId_untrack [simp]: "nextId (untrackIncomingIfObject h v k) = nextId h"
  by (cases v) (auto split: option.splits)

lemma types_track [simp]: "types (trackIncomingIfObject h v k) = types h"
  by (cases v) auto

lemma types_untrack [simp]: "types (untrackIncomingIfObject h v k) = types h"
  by (cases v) (auto split: option.splits)

lemma nextId_fields_set [simp]: "nextId (fields_set h i k v) = nextId h"
  by (simp add: fields_set_def)

lemma types_fields_set [simp]: "types (fields_set h i k v) = types h"
  by (simp add: fields_set_def)

lemma incoming_fields_set [simp]: "incoming (fields_set h i k v) = incoming h"
  by (simp add: fields_set_def)

lemma has_object_live: "has_object h i \<longleftrightarrow> i \<in> live h"
  by (simp add: has_object_keys live_def)

lemma getObject_None_live: "getObject h i = None \<longleftrightarrow> i \<notin> live h"
  by (simp add: getObject_def map_of_eq_None_iff live_def)

lemma live_keys: "live h = set (map fst (objects h))"
  by (simp add: live_def)

lemma live_cascadeNode: "live (fst (cascadeNode h cur st)) = live h - {cur}"
  by (simp only: live_keys keys_cascadeNode) auto

lemma live_cascadeStep:
  assumes "cascadeStep h cur rest vis = (h', st', vis')"
  shows "live h' \<subseteq> live h" and "cur \<notin> vis \<Longrightarrow> cur \<notin> live h'"
proof -
  show "live h' \<subseteq> live h"
  proof (cases "cur \<in> vis \<or> \<not> has_object h cur")
    case True
    with assms show ?thesis by (auto simp: cascadeStep_def split: if_splits)
  next
    case False
    then have "h' = fst (cascadeNode h cur rest)"
      using assms by (auto simp: cascadeStep_def split: prod.splits)
    then show ?thesis by (auto simp: live_cascadeNode)
  qed
  show "cur \<notin> live h'" if "cur \<notin> vis"
  proof (cases "has_object h cur")
    case False
    with assms that show ?thesis by (auto simp: cascadeStep_def has_object_live)
  next
    case True
    then have "h' = fst (cascadeNode h cur rest)"
      using assms that by (auto simp: cascadeStep_def split: prod.splits)
    then show ?thesis by (simp add: live_cascadeNode)
  qed
qed

lemma live_cascadeLoop: "live (cascadeLoop h st vis) \<subseteq> live h"
proof (induction h st vis rule: cascadeLoop.induct)
  case (1 h visited)
  then show ?case by simp
next
  case (2 h cur rest visited)
  obtain h' st' vis' where s: "cascadeStep h cur rest visited = (h', st', vis')"
    by (cases "cascadeStep h cur rest visited")
  from "2.IH" [of h' "(st', vis')" st' vis'] s
  have "live (cascadeLoop h' st' vis') \<subseteq> live h'" by simp
  with live_cascadeStep(1) [OF s] show ?case by (auto simp: s)
qed

lemma deleteObjectCascade_not_live: "getObject (deleteObjectCascade h i) i = None"
proof -
  obtain h' st' vis' where s: "cascadeStep h i [] {} = (h', st', vis')"
    by (cases "cascadeStep h i [] {}")
  from live_cascadeStep(2) [OF s] have "i \<notin> live h'" by simp
  with live_cascadeLoop [of h' st' vis'] have "i \<notin> live (cascadeLoop h' st' vis')"
    by blast
  then show ?thesis
    by (simp add: deleteObjectCascade_def s getObject_None_live)
qed

lemma cascadeLoop_while:
  "\<exists>vis'. while_option (\<lambda>(h, st, vis). st \<noteq> []) cascadeIter (h, st, vis) =
            Some (cascadeLoop h st vis, [], vis')"
proof (induction h st vis rule: cascadeLoop.induct)
  case (1 h visited)
  show ?case by (subst while_option_unfold) simp
next
  case (2 h cur rest visited)
  obtain h' st' vis' where s: "cascadeStep h cur rest visited = (h', st', vis')"
    by (cases "cascadeStep h cur rest visited")
  from "2.IH" [of h' "(st', vis')" st' vis'] s
  obtain v where "while_option (\<lambda>(h, st, vis). st \<noteq> []) cascadeIter (h', st', vis') =
            Some (cascadeLoop h' st' vis', [], v)" by auto
  then show ?case
    by (subst while_option_unfold) (simp add: cascadeIter_def s)
qed

lemma test_heap_objects:
  "getObject test_heap 1 =
     Some \<lparr>oid = 1, typeName = Some ''N'', obj_fields = [(''id'', VNum 1), (''next'', VNum 2)]\<rparr>"
  "getObject test_heap 2 =
     Some \<lparr>oid = 2, typeName = Some ''N'', obj_fields = [(''id'', VNum 2)]\<rparr>"
  "getObject test_heap 3 = None"
  by code_simp+

lemma of_char_digit_char: "d < 10 \<Longrightarrow> of_char (digit_char d) = (48 + d :: nat)"
  by (simp add: digit_char_def)

lemma dec_digits: "c \<in> set (dec n) \<Longrightarrow> 48 \<le> (of_char c :: nat) \<and> (of_char c :: nat) \<le> 57"
proof (induction n rule: dec.induct)
  case (1 n)
  show ?case
  proof (cases "n < 10")
    case True
    with "1.prems" show ?thesis by (auto simp: dec.simps [of n] of_char_digit_char)
  next
    case False
    with "1.prems" have "c \<in> set (dec (n div 10)) \<or> c = digit_char (n mod 10)"
      by (auto simp: dec.simps [of n])
    then show ?thesis
    proof
      assume "c \<in> set (dec (n div 10))"
      with "1.IH" False show ?thesis by simp
    next
      assume "c = digit_char (n mod 10)"
      then show ?thesis by (simp add: of_char_digit_char)
    qed
  qed
qed

lemma decimal_value_snoc: "decimal_value (s @ [c]) = 10 * decimal_value s + (of_char c - 48)"
  by (simp add: decimal_value_def)

lemma decimal_value_dec: "decimal_value (dec n) = n"
proof (induction n rule: dec.induct)
  case (1 n)
  show ?case
  proof (cases "n < 10")
    case True
    then show ?thesis by (simp add: dec.simps [of n] decimal_value_def of_char_digit_char)
  next
    case False
    with "1.IH" have "decimal_value (dec (n div 10)) = n div 10" by simp
    with False show ?thesis
      by (simp add: dec.simps [of n] decimal_value_snoc of_char_digit_char)
  qed
qed

lemma dec_inj: "dec m = dec n \<Longrightarrow> m = n"
  by (metis decimal_value_dec)

lemma dec_no_dot: "CHR ''.'' \<notin> set (dec n)"
  using dec_digits [of "CHR ''.''" n] by auto

lemma dec_not_length: "dec n \<noteq> ''length''"
proof
  assume "dec n = ''length''"
  then have "CHR ''l'' \<in> set (dec n)" by simp
  from dec_digits [OF this] show False by simp
qed


lemma map_of_update_other: "k \<noteq> k' \<Longrightarrow> map_of (AList.update k' v xs) k = map_of xs k"
  by (simp add: update_conv')

lemma set_set_add [simp]: "set (set_add x xs) = insert x (set xs)"
  by (auto simp: set_add_def)

lemma count_set_add: "distinct xs \<Longrightarrow> count_list (set_add x xs) x = 1"
  by (induction xs) (auto simp: set_add_def split: if_splits)

lemma array_heap_facts:
  "getObject array_heap 2 =
     Some \<lparr>oid = 2, typeName = Some ''__array__'', obj_fields = [(''0'', VNum 1), (''length'', VNum 1)]\<rparr>"
  "has_object array_heap 1"
  "String_num 1 = ''1''"
  by code_simp+

subsection \<open>Observations of the primitive updates\<close>

lemma getField_field_of: "getField h q g = (case field_of h q g of None \<Rightarrow> VUndef | Some v \<Rightarrow> v)"
  by (simp add: getField_def field_of_def fields_get_def split: option.splits)

lemma live_getObject: "p \<in> live h \<longleftrightarrow> (\<exists>obj. getObject h p = Some obj)"
  using getObject_None_live [of h p] by auto

lemma live_fields_set [simp]: "live (fields_set h i k v) = live h"
  by (simp add: live_keys)

lemma live_track [simp]: "live (trackIncomingIfObject h v e) = live h"
  by (simp add: live_def)

lemma live_untrack [simp]: "live (untrackIncomingIfObject h v e) = live h"
  by (simp add: live_def)

lemma field_of_fields_set:
  "field_of (fields_set h i k v) q g = (if q = i \<and> g = k \<and> i \<in> live h then Some v else field_of h q g)"
  by (auto simp: field_of_def getObject_fields_set update_conv' getObject_None_live [symmetric]
           split: option.splits)

lemma field_of_track [simp]: "field_of (trackIncomingIfObject h v e) = field_of h"
  by (intro ext) (simp add: field_of_def)

lemma field_of_untrack [simp]: "field_of (untrackIncomingIfObject h v e) = field_of h"
  by (intro ext) (simp add: field_of_def)

lemma tyName_fields_set [simp]: "tyName (fields_set h i k v) = tyName h"
  by (intro ext) (auto simp: tyName_def getObject_fields_set option.map_comp comp_def)

lemma tyName_track [simp]: "tyName (trackIncomingIfObject h v e) = tyName h"
  by (intro ext) (simp add: tyName_def)

lemma tyName_untrack [simp]: "tyName (untrackIncomingIfObject h v e) = tyName h"
  by (intro ext) (simp add: tyName_def)

lemma incoming_of_fields_set [simp]: "incoming_of (fields_set h i k v) = incoming_of h"
  by (intro ext) (simp add: incoming_of_def)

lemma refers_live: "refers h v c \<longleftrightarrow> v = VNum c \<and> c \<in> live h"
  by (simp add: refers_def has_object_live)

lemma refers_fields_set [simp]: "refers (fields_set h i k w) = refers h"
  by (intro ext) (simp add: refers_live)

lemma refers_track [simp]: "refers (trackIncomingIfObject h w e) = refers h"
  by (intro ext) (simp add: refers_live)

lemma refers_untrack [simp]: "refers (untrackIncomingIfObject h w e) = refers h"
  by (intro ext) (simp add: refers_live)

lemma incoming_of_trackIncoming:
  "incoming_of (trackIncomingIfObject h v e) c =
     (if refers h v c then set_add e (incoming_of h c) else incoming_of h c)"
  by (cases v) (auto simp: incoming_of_def refers_def update_conv')

lemma incoming_of_untrackIncoming:
  "incoming_of (untrackIncomingIfObject h v e) c =
     (if refers h v c then removeAll e (incoming_of h c) else incoming_of h c)"
  by (cases v) (auto simp: incoming_of_def refers_def set_delete_def update_conv' delete_conv' split: option.splits)

lemma isFieldMandatory_types: "types h' = types h \<Longrightarrow> isFieldMandatory h' = isFieldMandatory h"
  by (intro ext) (simp add: isFieldMandatory_def split: option.splits)

lemma mandatoryFor_cong:
  "types h' = types h \<Longrightarrow> tyName h' p = tyName h p \<Longrightarrow> mandatoryFor h' p g = mandatoryFor h p g"
  by (auto simp: mandatoryFor_def tyName_def isFieldMandatory_def split: option.splits)

lemma mandatoryFor_live: "mandatoryFor h p g \<Longrightarrow> p \<in> live h"
  by (auto simp: mandatoryFor_def live_getObject split: option.splits)

subsection \<open>One parent key\<close>

lemma cascadeParent_dead:
  "p \<notin> live h \<Longrightarrow> cascadeParent (p, key) (h, st) = (h, st)"
  by (simp add: cascadeParent_def getObject_None_live [symmetric])

lemma cascadeParent_live:
  assumes "p \<in> live h"
  shows "cascadeParent (p, key) (h, st) =
           (untrackIncomingIfObject (fields_set h p (fieldName_of key) VNull)
              (getField h p (fieldName_of key)) (p, key),
            if mandatoryFor h p (fieldName_of key) then p # st else st)"
proof -
  from assms obtain parent where "getObject h p = Some parent"
    by (auto simp: live_getObject)
  then show ?thesis
    by (simp add: cascadeParent_def Let_def getField_def mandatoryFor_def
        isFieldMandatory_types [of "untrackIncomingIfObject _ _ _" h])
qed

lemma cascadeParent_obs:
  assumes "cascadeParent (p, key) (h, st) = (h', st')"
  shows "live h' = live h" and "types h' = types h" and "tyName h' = tyName h"
    and "nextId h' = nextId h"
    and "field_of h' q g =
           (if q = p \<and> g = fieldName_of key \<and> p \<in> live h then Some VNull else field_of h q g)"
    and "incoming_of h' c =
           (if p \<in> live h \<and> refers h (getField h p (fieldName_of key)) c
            then removeAll (p, key) (incoming_of h c) else incoming_of h c)"
    and "st' = (if mandatoryFor h p (fieldName_of key) then p # st else st)"
proof -
  show "live h' = live h" "types h' = types h" "tyName h' = tyName h" "nextId h' = nextId h"
    using assms by (cases "p \<in> live h"; simp add: cascadeParent_dead cascadeParent_live; fastforce)+
  show "field_of h' q g =
           (if q = p \<and> g = fieldName_of key \<and> p \<in> live h then Some VNull else field_of h q g)"
    using assms
    by (cases "p \<in> live h") (auto simp: cascadeParent_dead cascadeParent_live field_of_fields_set)
  show "incoming_of h' c =
           (if p \<in> live h \<and> refers h (getField h p (fieldName_of key)) c
            then removeAll (p, key) (incoming_of h c) else incoming_of h c)"
    using assms
    by (cases "p \<in> live h") (auto simp: cascadeParent_dead cascadeParent_live incoming_of_untrackIncoming)
  show "st' = (if mandatoryFor h p (fieldName_of key) then p # st else st)"
    using assms mandatoryFor_live [of h p "fieldName_of key"]
    by (cases "p \<in> live h") (auto simp: cascadeParent_dead cascadeParent_live)
qed

subsection \<open>The loop over the parent keys\<close>

lemma fold_cascadeParent_aux:
  "fold cascadeParent es (h, st) = (h', st') \<Longrightarrow>
     live h' = live h \<and> types h' = types h \<and> tyName h' = tyName h \<and> nextId h' = nextId h \<and>
     (\<forall>q g. field_of h' q g =
           (if q \<in> live h \<and> (\<exists>key. (q, key) \<in> set es \<and> fieldName_of key = g)
            then Some VNull else field_of h q g)) \<and>
     set st' = set st \<union> {p. \<exists>key. (p, key) \<in> set es \<and> mandatoryFor h p (fieldName_of key)} \<and>
     (\<forall>c. set (incoming_of h' c) \<subseteq> set (incoming_of h c) \<and>
          set (incoming_of h c) - set es \<subseteq> set (incoming_of h' c) \<and>
          (distinct (incoming_of h c) \<longrightarrow> distinct (incoming_of h' c)))"
proof (induction es arbitrary: h st)
  case Nil
  then show ?case by simp
next
  case (Cons e es)
  obtain p key where e: "e = (p, key)" by (cases e)
  obtain h1 st1 where s: "cascadeParent (p, key) (h, st) = (h1, st1)"
    by (cases "cascadeParent (p, key) (h, st)")
  note o = cascadeParent_obs [OF s]
  have m: "mandatoryFor h1 = mandatoryFor h"
    by (intro ext mandatoryFor_cong) (simp_all add: o)
  from Cons.prems have f: "fold cascadeParent es (h1, st1) = (h', st')" by (simp add: e s)
  note ih = Cons.IH [OF f]
  have 1: "live h' = live h \<and> types h' = types h \<and> tyName h' = tyName h \<and> nextId h' = nextId h"
    using ih by (simp add: o)
  have 2: "\<forall>q g. field_of h' q g =
           (if q \<in> live h \<and> (\<exists>key. (q, key) \<in> set (e # es) \<and> fieldName_of key = g)
            then Some VNull else field_of h q g)"
    using ih by (auto simp: o e)
  have 3: "set st' = set st \<union> {p. \<exists>key. (p, key) \<in> set (e # es) \<and> mandatoryFor h p (fieldName_of key)}"
    using ih by (auto simp: o(7) m e)
  have 4: "set (incoming_of h' c) \<subseteq> set (incoming_of h c) \<and>
          set (incoming_of h c) - set (e # es) \<subseteq> set (incoming_of h' c) \<and>
          (distinct (incoming_of h c) \<longrightarrow> distinct (incoming_of h' c))" for c
  proof -
    from ih have i: "set (incoming_of h' c) \<subseteq> set (incoming_of h1 c)"
      "set (incoming_of h1 c) - set es \<subseteq> set (incoming_of h' c)"
      "distinct (incoming_of h1 c) \<longrightarrow> distinct (incoming_of h' c)" by blast+
    have j: "set (incoming_of h1 c) \<subseteq> set (incoming_of h c)"
      "set (incoming_of h c) - {e} \<subseteq> set (incoming_of h1 c)"
      "distinct (incoming_of h c) \<longrightarrow> distinct (incoming_of h1 c)"
      by (auto simp: o(6) e distinct_removeAll)
    from i j show ?thesis by auto
  qed
  from 1 2 3 4 show ?case by blast
qed

lemma fold_cascadeParent_obs:
  assumes "fold cascadeParent es (h, st) = (h', st')"
  shows "live h' = live h" and "types h' = types h" and "tyName h' = tyName h"
    and "nextId h' = nextId h"
    and "field_of h' q g =
           (if q \<in> live h \<and> (\<exists>key. (q, key) \<in> set es \<and> fieldName_of key = g)
            then Some VNull else field_of h q g)"
    and "set st' = set st \<union> {p. \<exists>key. (p, key) \<in> set es \<and> mandatoryFor h p (fieldName_of key)}"
    and "set (incoming_of h' c) \<subseteq> set (incoming_of h c)"
    and "set (incoming_of h c) - set es \<subseteq> set (incoming_of h' c)"
    and "distinct (incoming_of h c) \<Longrightarrow> distinct (incoming_of h' c)"
  using fold_cascadeParent_aux [OF assms] by blast+

subsection \<open>Removing the object\<close>

lemma fold_untrack_aux:
  "types (fold (\<lambda>(k, v) g. untrackIncomingIfObject g v (cur, k)) fs h) = types h \<and>
   nextId (fold (\<lambda>(k, v) g. untrackIncomingIfObject g v (cur, k)) fs h) = nextId h \<and>
   (\<forall>c. set (incoming_of (fold (\<lambda>(k, v) g. untrackIncomingIfObject g v (cur, k)) fs h) c) =
          set (incoming_of h c) - {(cur, k) | k v. (k, v) \<in> set fs \<and> refers h v c} \<and>
        (distinct (incoming_of h c) \<longrightarrow>
           distinct (incoming_of (fold (\<lambda>(k, v) g. untrackIncomingIfObject g v (cur, k)) fs h) c)))"
proof (induction fs arbitrary: h)
  case Nil
  then show ?case by simp
next
  case (Cons a fs)
  obtain k v where a: "a = (k, v)" by (cases a)
  let ?h1 = "untrackIncomingIfObject h v (cur, k)"
  note ih = Cons.IH [of ?h1]
  have "set (incoming_of (fold (\<lambda>(k, v) g. untrackIncomingIfObject g v (cur, k)) fs ?h1) c) =
          set (incoming_of h c) - {(cur, k) | k v. (k, v) \<in> set (a # fs) \<and> refers h v c} \<and>
        (distinct (incoming_of h c) \<longrightarrow>
           distinct (incoming_of (fold (\<lambda>(k, v) g. untrackIncomingIfObject g v (cur, k)) fs ?h1) c))" for c
    using ih by (auto simp: incoming_of_untrackIncoming a distinct_removeAll)
  with ih show ?case by (simp add: a)
qed

lemma getObject_delete:
  "getObject (h\<lparr>objects := AList.delete cur (objects h)\<rparr>) q = (if q = cur then None else getObject h q)"
  by (simp add: getObject_def delete_conv')

lemma incoming_of_incoming_update:
  "incoming_of (h\<lparr>incoming := AList.delete cur (incoming h)\<rparr>) c = (if c = cur then [] else incoming_of h c)"
  by (simp add: incoming_of_def delete_conv')

lemma severNode_obs:
  shows "live (severNode h cur) = live h - {cur}"
    and "types (severNode h cur) = types h"
    and "nextId (severNode h cur) = nextId h"
    and "tyName (severNode h cur) q = (if q = cur then None else tyName h q)"
    and "field_of (severNode h cur) q g = (if q = cur then None else field_of h q g)"
    and "set (incoming_of (severNode h cur) c) =
           (if c = cur then {}
            else set (incoming_of h c) -
                 {(cur, k) | k v. (k, v) \<in> set (fields_of h cur) \<and> refers h v c})"
    and "distinct (incoming_of h c) \<Longrightarrow> distinct (incoming_of (severNode h cur) c)"
proof -
  let ?fs = "fields_of h cur"
  let ?h2 = "fold (\<lambda>(k, v) g. untrackIncomingIfObject g v (cur, k)) ?fs h"
  let ?h3 = "?h2\<lparr>incoming := AList.delete cur (incoming ?h2)\<rparr>"
  have sv: "severNode h cur = ?h3\<lparr>objects := AList.delete cur (objects ?h3)\<rparr>"
    by (simp add: severNode_def fields_of_def Let_def)
  have ob: "objects ?h3 = objects h" by simp
  have go: "getObject (severNode h cur) q = (if q = cur then None else getObject h q)" for q
    by (simp add: sv getObject_def delete_conv')
  show "live (severNode h cur) = live h - {cur}"
    by (auto simp: live_getObject go split: if_splits)
  show "types (severNode h cur) = types h" "nextId (severNode h cur) = nextId h"
    using fold_untrack_aux [of cur ?fs h] by (simp_all add: sv)
  show "tyName (severNode h cur) q = (if q = cur then None else tyName h q)"
    by (simp add: tyName_def go)
  show "field_of (severNode h cur) q g = (if q = cur then None else field_of h q g)"
    by (simp add: field_of_def go)
  have inc: "incoming_of (severNode h cur) c = (if c = cur then [] else incoming_of ?h2 c)"
    by (simp add: sv incoming_of_def delete_conv')
  show "set (incoming_of (severNode h cur) c) =
           (if c = cur then {}
            else set (incoming_of h c) -
                 {(cur, k) | k v. (k, v) \<in> set (fields_of h cur) \<and> refers h v c})"
    using fold_untrack_aux [of cur ?fs h] by (simp add: inc)
  show "distinct (incoming_of (severNode h cur) c)" if "distinct (incoming_of h c)"
    using fold_untrack_aux [of cur ?fs h] that by (simp add: inc)
qed

lemma cascadeNode_split:
  "cascadeNode h cur st =
     (severNode (fst (fold cascadeParent (incoming_of h cur) (h, st))) cur,
      snd (fold cascadeParent (incoming_of h cur) (h, st)))"
  by (simp add: cascadeNode_def severNode_def Let_def split: prod.splits)

lemma cascadeNode_obs:
  assumes "cascadeNode h cur st = (h', st')"
  shows "live h' = live h - {cur}" and "types h' = types h" and "nextId h' = nextId h"
    and "tyName h' q = (if q = cur then None else tyName h q)"
    and "field_of h' q g =
           (if q = cur then None
            else if q \<in> live h \<and> (\<exists>key. (q, key) \<in> set (incoming_of h cur) \<and> fieldName_of key = g)
            then Some VNull else field_of h q g)"
    and "set st' = set st \<union> {p. \<exists>key. (p, key) \<in> set (incoming_of h cur) \<and> mandatoryFor h p (fieldName_of key)}"
    and "set (incoming_of h' c) \<subseteq> set (incoming_of h c)"
    and "incoming_of h' cur = []"
    and "c \<noteq> cur \<Longrightarrow> e \<in> set (incoming_of h c) \<Longrightarrow> e \<notin> set (incoming_of h cur) \<Longrightarrow> fst e \<noteq> cur
           \<Longrightarrow> e \<in> set (incoming_of h' c)"
    and "distinct (incoming_of h c) \<Longrightarrow> distinct (incoming_of h' c)"
proof -
  obtain h1 st1 where f: "fold cascadeParent (incoming_of h cur) (h, st) = (h1, st1)"
    by (cases "fold cascadeParent (incoming_of h cur) (h, st)")
  note o = fold_cascadeParent_obs [OF f]
  from assms have h': "h' = severNode h1 cur" and st': "st' = st1"
    by (simp_all add: cascadeNode_split f)
  note v = severNode_obs [where h = h1 and cur = cur]
  show "live h' = live h - {cur}" by (simp add: h' v o)
  show "types h' = types h" by (simp add: h' v o)
  show "nextId h' = nextId h" by (simp add: h' v o)
  show "tyName h' q = (if q = cur then None else tyName h q)" by (simp add: h' v o)
  show "field_of h' q g =
           (if q = cur then None
            else if q \<in> live h \<and> (\<exists>key. (q, key) \<in> set (incoming_of h cur) \<and> fieldName_of key = g)
            then Some VNull else field_of h q g)"
    by (simp add: h' v o)
  show "set st' = set st \<union> {p. \<exists>key. (p, key) \<in> set (incoming_of h cur) \<and> mandatoryFor h p (fieldName_of key)}"
    by (simp add: st' o)
  show "set (incoming_of h' c) \<subseteq> set (incoming_of h c)"
    using o(7) [of c] by (auto simp: h' v(6) [where c = c] split: if_splits)
  show "incoming_of h' cur = []"
    using v(6) [where c = cur] by (simp add: h')
  show "e \<in> set (incoming_of h' c)"
    if "c \<noteq> cur" "e \<in> set (incoming_of h c)" "e \<notin> set (incoming_of h cur)" "fst e \<noteq> cur"
    using that o(8) [of c] by (auto simp: h' v(6) [where c = c])
  show "distinct (incoming_of h' c)" if "distinct (incoming_of h c)"
    using v(7) [where c = c, OF o(9) [OF that]] by (simp add: h')
qed

subsection \<open>Invariants of the loop\<close>

lemma cascadeLoop_rule:
  assumes init: "I h st vis"
    and skip: "\<And>h cur rest vis. I h (cur # rest) vis \<Longrightarrow> cur \<in> vis \<Longrightarrow> I h rest vis"
    and dead: "\<And>h cur rest vis. I h (cur # rest) vis \<Longrightarrow> cur \<notin> vis \<Longrightarrow> cur \<notin> live h
                 \<Longrightarrow> I h rest (insert cur vis)"
    and node: "\<And>h cur rest vis h' st'. I h (cur # rest) vis \<Longrightarrow> cur \<notin> vis \<Longrightarrow> cur \<in> live h
                 \<Longrightarrow> cascadeNode h cur rest = (h', st') \<Longrightarrow> I h' st' (insert cur vis)"
  shows "\<exists>vis'. I (cascadeLoop h st vis) [] vis'"
  using init
proof (induction h st vis rule: cascadeLoop.induct)
  case (1 h visited)
  then show ?case by auto
next
  case (2 h cur rest visited)
  obtain h' st' vis' where s: "cascadeStep h cur rest visited = (h', st', vis')"
    by (cases "cascadeStep h cur rest visited")
  have "I h' st' vis'"
  proof (cases "cur \<in> visited")
    case True
    with s skip [OF "2.prems"] show ?thesis by (simp add: cascadeStep_def)
  next
    case nv: False
    show ?thesis
    proof (cases "cur \<in> live h")
      case False
      with s nv dead [OF "2.prems"] show ?thesis by (simp add: cascadeStep_def has_object_live)
    next
      case True
      with s nv have "cascadeNode h cur rest = (h', st')" "vis' = insert cur visited"
        by (auto simp: cascadeStep_def has_object_live split: prod.splits)
      with node [OF "2.prems" nv True] show ?thesis by simp
    qed
  qed
  from "2.IH" [of h' "(st', vis')" st' vis', OF _ _ this] s show ?case by simp
qed

subsection \<open>What the cascade deletes\<close>

text \<open>Soundness: every object that the loop removes, and every object on its stack, is
  reached from the root by mandatory back-edges of the heap the cascade started in.\<close>

lemma fieldName_of_dotfree: "dotfree key \<Longrightarrow> fieldName_of key = key"
  by (auto simp: dotfree_def fieldName_of_def takeWhile_eq_all_conv)

lemma shrunk_refl: "shrunk h h"
  by (simp add: shrunk_def)


lemma shrunk_incoming: "shrunk h0 h \<Longrightarrow> e \<in> set (incoming_of h c) \<Longrightarrow> e \<in> set (incoming_of h0 c)"
  unfolding shrunk_def by blast

lemma shrunk_cascadeNode:
  assumes "shrunk h0 h" and "cascadeNode h cur st = (h', st')"
  shows "shrunk h0 h'"
proof -
  note o = cascadeNode_obs [OF assms(2)]
  have "types h' = types h0" using assms(1) by (simp add: o shrunk_def)
  moreover have "live h' \<subseteq> live h0" using assms(1) by (auto simp: o shrunk_def)
  moreover have "\<forall>q \<in> live h'. tyName h' q = tyName h0 q"
    using assms(1) by (auto simp: o shrunk_def)
  moreover have "\<forall>c. set (incoming_of h' c) \<subseteq> set (incoming_of h0 c)"
    using o(7) shrunk_incoming [OF assms(1)] by blast
  ultimately show ?thesis by (simp add: shrunk_def)
qed








lemma test_heap_index:
  "incoming test_heap = [(1, [(1, ''id'')]), (2, [(2, ''id''), (1, ''next'')])]"
  "mandatoryEdgeList test_heap = [(1, 1), (2, 2)]"
  "live test_heap = {1, 2}"
  by code_simp+


text \<open>Completeness: when the loop ends, a live holder of a recorded mandatory link refers
  to a live object.\<close>

lemma cascadeLoop_complete:
  assumes "(c, p, key) \<in> recordedLinks h0" and "p \<in> live (cascadeLoop h0 st {})"
    and "p \<notin> set st"
  shows "c \<in> live (cascadeLoop h0 st {})"
proof -
  let ?I = "\<lambda>h st vis. vis \<inter> live h = {} \<and> shrunk h0 h \<and>
     (\<forall>(c, p, key) \<in> recordedLinks h0. p \<in> live h \<longrightarrow>
         p \<in> set st \<or> (c \<in> live h \<and> (p, key) \<in> set (incoming_of h c)))"
  have "\<exists>vis'. ?I (cascadeLoop h0 st {}) [] vis'"
  proof (rule cascadeLoop_rule [where I = ?I])
    show "?I h0 st {}" by (auto simp: shrunk_refl recordedLinks_def)
  next
    fix h cur rest vis
    assume "?I h (cur # rest) vis" and "cur \<in> vis"
    then show "?I h rest vis" by fastforce
  next
    fix h cur rest vis
    assume "?I h (cur # rest) vis" and "cur \<notin> live h"
    then show "?I h rest (insert cur vis)" by fastforce
  next
    fix h cur rest vis h' st'
    assume i: "?I h (cur # rest) vis" and l: "cur \<in> live h" and n: "cascadeNode h cur rest = (h', st')"
    note o = cascadeNode_obs [OF n]
    from i have sh: "shrunk h0 h" by simp
    have "insert cur vis \<inter> live h' = {}" using i by (auto simp: o(1))
    moreover have "shrunk h0 h'" using shrunk_cascadeNode [OF sh n] .
    moreover have "p \<in> set st' \<or> (c \<in> live h' \<and> (p, key) \<in> set (incoming_of h' c))"
      if t: "(c, p, key) \<in> recordedLinks h0" and p: "p \<in> live h'" for c p key
    proof -
      from p have pl: "p \<in> live h" "p \<noteq> cur" by (auto simp: o(1))
      from t have df: "fieldName_of key = key" and m0: "mandatoryFor h0 p key"
        by (auto simp: recordedLinks_def fieldName_of_dotfree)
      from sh pl have "tyName h p = tyName h0 p" "types h = types h0" by (auto simp: shrunk_def)
      with m0 have m: "mandatoryFor h p (fieldName_of key)"
        by (simp add: df mandatoryFor_cong [of h h0 p key])
      from i t pl consider "p \<in> set rest" | "c \<in> live h" "(p, key) \<in> set (incoming_of h c)"
        by fastforce
      then show ?thesis
      proof cases
        case 1
        then show ?thesis by (simp add: o(6))
      next
        case 2
        show ?thesis
        proof (cases "(p, key) \<in> set (incoming_of h cur)")
          case True
          with m show ?thesis by (auto simp: o(6))
        next
          case False
          with 2 have "c \<noteq> cur" by auto
          with 2 False pl o(9) [of c "(p, key)"] show ?thesis by (simp add: o(1))
        qed
      qed
    qed
    ultimately show "?I h' st' (insert cur vis)" by blast
  qed
  with assms show ?thesis by fastforce
qed

lemma deleteObjectCascade_reaches:
  assumes "(r, q) \<in> {(c, p). \<exists>key. (c, p, key) \<in> recordedLinks h}\<^sup>*"
  shows "q \<notin> live (deleteObjectCascade h r)"
  using assms
proof (induction rule: rtrancl_induct)
  case base
  show ?case using deleteObjectCascade_not_live [of h r] by (simp add: getObject_None_live)
next
  case (step y z)
  then obtain key where k: "(y, z, key) \<in> recordedLinks h" by auto
  show ?case
  proof
    assume z: "z \<in> live (deleteObjectCascade h r)"
    have "z \<noteq> r" using z deleteObjectCascade_not_live [of h r] by (auto simp: getObject_None_live)
    with cascadeLoop_complete [OF k, of "[r]"] z have "y \<in> live (deleteObjectCascade h r)"
      by (simp add: deleteObjectCascade_def)
    with step.IH show False by simp
  qed
qed

lemma cycle_nodes_reach:
  assumes "\<And>i. i < n \<Longrightarrow> (node (Suc i mod n), node i) \<in> R" and "i < n"
  shows "(node ((i + d) mod n), node i) \<in> R\<^sup>*"
proof (induction d)
  case 0
  with assms(2) show ?case by simp
next
  case (Suc d)
  have "(i + d) mod n < n" using assms(2) by simp
  from assms(1) [OF this] have "(node ((i + Suc d) mod n), node ((i + d) mod n)) \<in> R"
    by (simp add: mod_Suc_eq)
  with Suc show ?case by (meson converse_rtrancl_into_rtrancl)
qed

lemma cycle_nodes_connected:
  assumes "\<And>i. i < n \<Longrightarrow> (node (Suc i mod n), node i) \<in> R" and "i < n" and "j < n"
  shows "(node j, node i) \<in> R\<^sup>*"
proof -
  have "(i + (j + n - i)) mod n = j" using assms(2,3) by simp
  with cycle_nodes_reach [of n node R i "j + n - i"] assms(1,2) show ?thesis by simp
qed

lemma mandatoryCycleD:
  assumes "mandatoryCycle h ns" and "i < length ns" and "ns ! i = (p, f)"
  shows "p \<in> live h" and "mandatoryFor h p f"
    and "getField h p f = VNum (fst (ns ! (Suc i mod length ns)))"
  using assms by (auto simp: mandatoryCycle_def list_all_iff dest!: bspec [where x = i])

lemma recordedCycleD:
  assumes "recordedCycle h ns" and "i < length ns" and "ns ! i = (p, f)"
  shows "(p, f) \<in> set (incoming_of h (fst (ns ! (Suc i mod length ns))))" and "dotfree f"
  using assms by (auto simp: recordedCycle_def list_all_iff dest!: bspec [where x = i])

lemma cycle_heap_facts:
  "mandatoryCycle cycle_heap [(1, ''link''), (2, ''link'')]"
  "recordedCycle cycle_heap [(1, ''link''), (2, ''link'')]"
  "live cycle_heap = {1, 2}"
  by code_simp+

lemma early_number_heap_facts:
  "mandatoryCycle early_number_heap [(1, ''link''), (2, ''link'')]"
  "live (deleteObjectCascade early_number_heap 2) = {1}"
  "getField (deleteObjectCascade early_number_heap 2) 1 ''link'' = VNum 2"
  "incoming early_number_heap = [(1, [(2, ''link'')])]"
  by code_simp+

subsection \<open>What the cascade writes\<close>

lemma cascadeLoop_null_stays:
  assumes "p \<in> live h \<longrightarrow> field_of h p f = Some VNull"
  shows "p \<in> live (cascadeLoop h st vis) \<longrightarrow> field_of (cascadeLoop h st vis) p f = Some VNull"
proof -
  let ?I = "\<lambda>h (st :: ObjectId list) (vis :: ObjectId set). p \<in> live h \<longrightarrow> field_of h p f = Some VNull"
  have "\<exists>vis'. ?I (cascadeLoop h st vis) [] vis'"
  proof (rule cascadeLoop_rule [where I = ?I])
    fix h cur rest vis h' st'
    assume i: "?I h (cur # rest) vis" and n: "cascadeNode h cur rest = (h', st')"
    note o = cascadeNode_obs [OF n]
    show "?I h' st' (insert cur vis)" using i by (auto simp: o(1,5))
  qed (use assms in auto)
  then show ?thesis by simp
qed

lemma deleteObjectCascade_live:
  assumes "n \<in> live h"
  shows "deleteObjectCascade h n =
           cascadeLoop (fst (cascadeNode h n [])) (snd (cascadeNode h n [])) {n}"
  using assms
  by (simp add: deleteObjectCascade_def cascadeStep_def has_object_live split: prod.splits)

lemma deleteObjectCascade_nulls:
  assumes "(p, f) \<in> set (incoming_of h n)" and "n \<in> live h" and "p \<in> live h" and "dotfree f"
    and "p \<in> live (deleteObjectCascade h n)"
  shows "getField (deleteObjectCascade h n) p f = VNull"
proof -
  obtain h1 st1 where c: "cascadeNode h n [] = (h1, st1)" by (cases "cascadeNode h n []")
  note o = cascadeNode_obs [OF c]
  have "p \<in> live h1 \<longrightarrow> field_of h1 p f = Some VNull"
    using assms(1,3,4) by (auto simp: o(1,5) fieldName_of_dotfree)
  from cascadeLoop_null_stays [OF this, of st1 "{n}"] assms(5)
  show ?thesis by (simp add: deleteObjectCascade_live [OF assms(2)] c getField_field_of)
qed

lemma deleteObjectCascade_deletes_holder:
  assumes "(p, f) \<in> set (incoming_of h n)" and "n \<in> live h" and "dotfree f" and "mandatoryFor h p f"
  shows "p \<notin> live (deleteObjectCascade h n)"
proof -
  from assms have "(n, p, f) \<in> recordedLinks h" by (simp add: recordedLinks_def)
  then have "(n, p) \<in> {(c, p). \<exists>key. (c, p, key) \<in> recordedLinks h}\<^sup>*" by auto
  then show ?thesis by (rule deleteObjectCascade_reaches)
qed

subsection \<open>What the writes record\<close>

lemma untrack_VUndef [simp]: "untrackIncomingIfObject h VUndef e = h"
  by simp

lemma setField_live:
  assumes "p \<in> live h"
  shows "setField h p name v m =
           (if v = VNull \<and> m
            then deleteObjectCascade (untrackIncomingIfObject h (getField h p name) (p, name)) p
            else trackIncomingIfObject
                   (fields_set (untrackIncomingIfObject h (getField h p name) (p, name)) p name v)
                   v (p, name))"
proof -
  from assms obtain parent where "getObject h p = Some parent" by (auto simp: live_getObject)
  then show ?thesis
    by (cases "fields_get parent name = VUndef") (simp_all add: setField_def Let_def getField_def)
qed

lemma setField_records:
  assumes "p \<in> live h" and "n \<in> live h"
  shows "(p, name) \<in> set (incoming_of (setField h p name (VNum n) m) n)"
  using assms
  by (simp add: setField_live incoming_of_trackIncoming refers_live del: trackIncomingIfObject.simps)

lemma fold_track_aux:
  "objects (fold (\<lambda>(key, v) g. trackIncomingIfObject g v (i, key)) fs h) = objects h \<and>
   types (fold (\<lambda>(key, v) g. trackIncomingIfObject g v (i, key)) fs h) = types h \<and>
   nextId (fold (\<lambda>(key, v) g. trackIncomingIfObject g v (i, key)) fs h) = nextId h \<and>
   (\<forall>c. set (incoming_of (fold (\<lambda>(key, v) g. trackIncomingIfObject g v (i, key)) fs h) c) =
          set (incoming_of h c) \<union> {(i, k) | k v. (k, v) \<in> set fs \<and> refers h v c})"
proof (induction fs arbitrary: h)
  case Nil
  then show ?case by simp
next
  case (Cons a fs)
  obtain k v where a: "a = (k, v)" by (cases a)
  let ?h1 = "trackIncomingIfObject h v (i, k)"
  note ih = Cons.IH [of ?h1]
  have "set (incoming_of (fold (\<lambda>(key, v) g. trackIncomingIfObject g v (i, key)) fs ?h1) c) =
          set (incoming_of h c) \<union> {(i, k) | k v. (k, v) \<in> set (a # fs) \<and> refers h v c}" for c
    using ih by (auto simp: incoming_of_trackIncoming a)
  with ih show ?case by (simp add: a)
qed

lemma distinct_initialFields: "distinct (map fst (initialFields initial))"
proof -
  have "distinct (map fst acc) \<Longrightarrow> distinct (map fst (fold (\<lambda>(k, v) acc. AList.update k v acc) initial acc))"
    for acc :: "(string \<times> val) list"
    by (induction initial arbitrary: acc) (auto simp: distinct_update)
  from this [of "[]"] show ?thesis by (simp add: initialFields_def)
qed

lemma createObject_obs:
  assumes "createObject h tn initial = (h', i)"
  shows "i = nextId h" and "nextId h' = nextId h + 1" and "types h' = types h"
    and "live h' = insert i (live h)"
    and "getObject h' q =
           (if q = i then Some \<lparr>oid = i, typeName = tn, obj_fields = initialFields initial\<rparr>
            else getObject h q)"
    and "set (incoming_of h' c) =
           set (incoming_of h c) \<union>
           {(i, k) | k. map_of (initialFields initial) k = Some (VNum c) \<and> c \<in> insert i (live h)}"
proof -
  let ?obj = "\<lparr>oid = nextId h, typeName = tn, obj_fields = initialFields initial\<rparr>"
  let ?h1 = "h\<lparr>nextId := nextId h + 1, objects := AList.update (nextId h) ?obj (objects h)\<rparr>"
  let ?h2 = "fold (\<lambda>(key, v) g. trackIncomingIfObject g v (nextId h, key)) (initialFields initial) ?h1"
  from assms have i: "i = nextId h" and h': "h' = ?h2"
    by (auto simp: createObject_def initialFields_def Let_def)
  note f = fold_track_aux [of "nextId h" "initialFields initial" ?h1]
  have go: "getObject h' q = (if q = i then Some ?obj else getObject h q)" for q
    using f by (simp add: getObject_def h' i update_conv')
  show "i = nextId h" by fact
  show "nextId h' = nextId h + 1" "types h' = types h" using f by (simp_all add: h')
  show l: "live h' = insert i (live h)"
    by (auto simp: live_getObject go split: if_splits)
  show "getObject h' q =
           (if q = i then Some \<lparr>oid = i, typeName = tn, obj_fields = initialFields initial\<rparr>
            else getObject h q)"
    by (simp add: go i)
  have l1: "live ?h1 = insert i (live h)"
    using l f by (simp add: live_def h')
  have io: "incoming_of ?h1 c = incoming_of h c" by (simp add: incoming_of_def)
  have "set (incoming_of h' c) =
          set (incoming_of h c) \<union> {(i, k) | k v. (k, v) \<in> set (initialFields initial) \<and> refers ?h1 v c}"
    using f by (simp add: h' io i)
  also have "{(i, k) | k v. (k, v) \<in> set (initialFields initial) \<and> refers ?h1 v c} =
      {(i, k) | k. map_of (initialFields initial) k = Some (VNum c) \<and> c \<in> insert i (live h)}"
    using distinct_initialFields [of initial] by (auto simp: refers_live l1)
  finally show "set (incoming_of h' c) =
           set (incoming_of h c) \<union>
           {(i, k) | k. map_of (initialFields initial) k = Some (VNum c) \<and> c \<in> insert i (live h)}" .
qed

lemma fold_arrayStore_aux:
  "live (fold (\<lambda>n g. trackIncomingIfObject (fields_set g i (dec n) (el ! n)) (el ! n) (i, dec n)) js h) = live h \<and>
   types (fold (\<lambda>n g. trackIncomingIfObject (fields_set g i (dec n) (el ! n)) (el ! n) (i, dec n)) js h) = types h \<and>
   nextId (fold (\<lambda>n g. trackIncomingIfObject (fields_set g i (dec n) (el ! n)) (el ! n) (i, dec n)) js h) = nextId h \<and>
   tyName (fold (\<lambda>n g. trackIncomingIfObject (fields_set g i (dec n) (el ! n)) (el ! n) (i, dec n)) js h) = tyName h \<and>
   (\<forall>c. set (incoming_of (fold (\<lambda>n g. trackIncomingIfObject (fields_set g i (dec n) (el ! n)) (el ! n) (i, dec n)) js h) c) =
          set (incoming_of h c) \<union> {(i, dec j) | j. j \<in> set js \<and> refers h (el ! j) c}) \<and>
   (\<forall>q g. field_of (fold (\<lambda>n g. trackIncomingIfObject (fields_set g i (dec n) (el ! n)) (el ! n) (i, dec n)) js h) q g =
          (if q = i \<and> i \<in> live h \<and> (\<exists>j \<in> set js. g = dec j) then Some (el ! decimal_value g)
           else field_of h q g))"
proof (induction js arbitrary: h)
  case Nil
  then show ?case by simp
next
  case (Cons n js)
  let ?h1 = "trackIncomingIfObject (fields_set h i (dec n) (el ! n)) (el ! n) (i, dec n)"
  note ih = Cons.IH [of ?h1]
  have inc: "set (incoming_of (fold (\<lambda>n g. trackIncomingIfObject (fields_set g i (dec n) (el ! n)) (el ! n) (i, dec n)) js ?h1) c) =
          set (incoming_of h c) \<union> {(i, dec j) | j. j \<in> set (n # js) \<and> refers h (el ! j) c}" for c
    using ih by (auto simp: incoming_of_trackIncoming)
  have fld: "field_of (fold (\<lambda>n g. trackIncomingIfObject (fields_set g i (dec n) (el ! n)) (el ! n) (i, dec n)) js ?h1) q g =
          (if q = i \<and> i \<in> live h \<and> (\<exists>j \<in> set (n # js). g = dec j) then Some (el ! decimal_value g)
           else field_of h q g)" for q g
    using ih by (auto simp: field_of_fields_set decimal_value_dec)
  from ih inc fld show ?case by simp
qed

lemma createArray_obs:
  assumes "createArray h el = (h', i)"
  shows "i = nextId h" and "nextId h' = nextId h + 1" and "types h' = types h"
    and "live h' = insert i (live h)"
    and "tyName h' q = (if q = i then Some (Some ''__array__'') else tyName h q)"
    and "set (incoming_of h' c) =
           set (incoming_of h c) \<union>
           {(i, dec j) | j. j < length el \<and> el ! j = VNum c \<and> c \<in> insert i (live h)}"
    and "field_of h' q g =
           (if q = i
            then (if g = ''length'' then Some (VNum (int (length el)))
                  else if \<exists>j < length el. g = dec j then Some (el ! decimal_value g) else None)
            else field_of h q g)"
proof -
  obtain h1 where c: "createObject h (Some ''__array__'') [] = (h1, i)"
    using assms by (auto simp: createArray_def Let_def split: prod.splits)
  note o = createObject_obs [OF c]
  let ?h2 = "fold (\<lambda>n g. trackIncomingIfObject (fields_set g i (dec n) (el ! n)) (el ! n) (i, dec n))
               [0..<length el] h1"
  from assms c have h': "h' = fields_set ?h2 i ''length'' (VNum (int (length el)))"
    by (simp add: createArray_def Let_def)
  note f = fold_arrayStore_aux [of i el "[0..<length el]" h1]
  have f1: "field_of h1 q g = (if q = i then None else field_of h q g)" for q g
    by (simp add: field_of_def o(5) initialFields_def)
  have t1: "tyName h1 q = (if q = i then Some (Some ''__array__'') else tyName h q)" for q
    by (simp add: tyName_def o(5))
  have i1: "set (incoming_of h1 c) = set (incoming_of h c)" for c
    by (simp add: o(6) initialFields_def)
  show "i = nextId h" by (rule o(1))
  show "nextId h' = nextId h + 1" using f by (simp add: h' o(2))
  show "types h' = types h" using f by (simp add: h' o(3))
  show "live h' = insert i (live h)" using f by (simp add: h' o(4))
  show "tyName h' q = (if q = i then Some (Some ''__array__'') else tyName h q)"
    using f by (simp add: h' t1)
  show "set (incoming_of h' c) =
           set (incoming_of h c) \<union>
           {(i, dec j) | j. j < length el \<and> el ! j = VNum c \<and> c \<in> insert i (live h)}"
    using f by (auto simp: h' i1 refers_live o(4))
  show "field_of h' q g =
           (if q = i
            then (if g = ''length'' then Some (VNum (int (length el)))
                  else if \<exists>j < length el. g = dec j then Some (el ! decimal_value g) else None)
            else field_of h q g)"
    using f dec_not_length by (auto simp: h' field_of_fields_set f1 o(4))
qed

lemma arrayPush_records:
  assumes "getObject h arr = Some obj" and "typeName obj = Some ''__array__''"
    and "length_Number obj = Some len" and "n \<in> live h"
  shows "\<exists>g. arrayPush h arr (VNum n) = Some g \<and> (arr, String_num len) \<in> set (incoming_of g n)"
  using assms
  by (simp add: arrayPush_def Let_def incoming_of_trackIncoming refers_live
           del: trackIncomingIfObject.simps)

lemma array_heap_index:
  "live array_heap = {1, 2}"
  "incoming array_heap = [(1, [(2, ''0'')])]"
  "getField array_heap 2 ''length'' = VNum 1"
  "live (deleteObjectCascade array_heap 1) = {2}"
  "getField (deleteObjectCascade array_heap 1) 2 ''length'' = VNum 1"
  "getField (deleteObjectCascade array_heap 1) 2 ''0'' = VNull"
  by code_simp+

subsection \<open>The symmetry is kept\<close>






















lemma dotfree_String_num: "dotfree (String_num n)"
  using dec_no_dot by (simp add: String_num_def dotfree_def)












text \<open>The index assignment of the interpreter writes the field and not the reverse index.\<close>

lemma index_run_unrecorded:
  "run empty_heap index_run \<noteq> None \<and>
   field_of (the (run empty_heap index_run)) 2 ''0'' = Some (VNum 1) \<and>
   1 \<in> live (the (run empty_heap index_run)) \<and>
   incoming_of (the (run empty_heap index_run)) 1 = []"
  by code_simp


subsection \<open>The pair stands for the string\<close>

lemma split_dot_prefix: "dotfree s \<Longrightarrow> split_dot (s @ CHR ''.'' # t) = s # split_dot t"
  by (induction s) (auto simp: dotfree_def)

lemma split_dot_hd: "\<exists>ss. split_dot key = fieldName_of key # ss"
  by (induction key) (auto simp: fieldName_of_def)

lemma dec_not_Nil: "dec n \<noteq> []"
  by (subst dec.simps) simp

lemma dec_no_minus: "CHR ''-'' \<notin> set (dec n)"
  using dec_digits [of "CHR ''-''" n] by auto

text \<open>\<open>parentKey.split(".")\<close> begins with the decimal string of the identifier and, second, the
  field name that the cascade uses: the key up to its first dot.\<close>

lemma split_parentKey_string:
  "\<exists>ss. split_dot (parentKey_string (i, key)) = String_num i # fieldName_of key # ss"
  using split_dot_hd [of key] by (auto simp: parentKey_string_def split_dot_prefix dotfree_String_num)

lemma Number_String_num: "Number_decimal (String_num i) = i"
proof (cases "i < 0")
  case True
  then show ?thesis by (simp add: String_num_def Number_decimal_def decimal_value_dec)
next
  case False
  obtain c cs where d: "dec (nat i) = c # cs" using dec_not_Nil [of "nat i"] by (cases "dec (nat i)") auto
  with dec_no_minus [of "nat i"] have "c \<noteq> CHR ''-''" by auto
  with False d decimal_value_dec [of "nat i"] show ?thesis
    by (simp add: String_num_def Number_decimal_def)
qed

text \<open>Two keys are the same string only when they are the same pair: a \<open>Set<string>\<close> of keys
  is a set of pairs.\<close>

lemma parentKey_string_inj:
  assumes "parentKey_string a = parentKey_string b"
  shows "a = b"
proof -
  obtain i k where a: "a = (i, k)" by (cases a)
  obtain j l where b: "b = (j, l)" by (cases b)
  from assms have "split_dot (String_num i @ CHR ''.'' # k) = split_dot (String_num j @ CHR ''.'' # l)"
    by (simp add: parentKey_string_def a b)
  then have "String_num i = String_num j" by (simp add: split_dot_prefix dotfree_String_num)
  then have "Number_decimal (String_num i) = Number_decimal (String_num j)" by simp
  then have "i = j" by (simp add: Number_String_num)
  with assms show ?thesis by (simp add: parentKey_string_def a b)
qed

section \<open>The claims\<close>

text \<open>Claim C8 (dead write is a no-op). When \<open>parentId\<close> is not live, \<open>setField\<close> returns and leaves
  the whole heap (forward store, reverse index, identifier counter, type registry) as it
  was, for every name, value and mandatoriness flag.\<close>

theorem setField_dead_noop:
  "getObject h parentId = None \<Longrightarrow> setField h parentId name v isMandatory = h"
  by (simp add: setField_def)

theorem setField_dead_noop_witness:
  "getObject empty_heap 7 = None \<and> setField empty_heap 7 ''next'' (VNum 3) True = empty_heap"
proof -
  have d: "getObject empty_heap 7 = None" by (simp add: getObject_def empty_heap_def)
  from setField_dead_noop [OF d] d show ?thesis by simp
qed

text \<open>Claim C9 as stated fails: on a dead object \<open>getField\<close> returns \<open>undefined\<close>, not \<open>null\<close>.\<close>

theorem getField_undefined_counterexample:
  "getObject empty_heap 1 = None \<and> getField empty_heap 1 ''x'' = VUndef \<and> VUndef \<noteq> VNull"
  by (simp add: getObject_def getField_def empty_heap_def)

text \<open>Claim C9, amended (contract of \<open>getField\<close>). \<open>getField\<close> returns the stored value of the field when
  the object is live and the field present. When the field is absent or the object is dead
  it returns \<open>undefined\<close>, which is not \<open>null\<close> (\<open>setField\<close> tells them apart); the
  interpreter's field read \<open>evalAccess\<close> turns that into \<open>null\<close>.\<close>

theorem getField_contract:
  "(getObject h i = Some obj \<and> map_of (obj_fields obj) name = Some v \<longrightarrow> getField h i name = v) \<and>
   (getObject h i = Some obj \<and> map_of (obj_fields obj) name = None \<longrightarrow>
      getField h i name = VUndef \<and> evalAccess h (VNum i) name = Inr VNull) \<and>
   (getObject h i = None \<longrightarrow>
      getField h i name = VUndef \<and> evalAccess h (VNum i) name = Inr VNull)"
  by (simp add: getField_def fields_get_def evalAccess_def nullish_null_def)

theorem getField_contract_witness:
  "getField test_heap 1 ''next'' = VNum 2 \<and>
   getField test_heap 2 ''next'' = VUndef \<and> evalAccess test_heap (VNum 2) ''next'' = Inr VNull \<and>
   getField test_heap 3 ''next'' = VUndef \<and> evalAccess test_heap (VNum 3) ''next'' = Inr VNull"
proof -
  let ?a = "\<lparr>oid = 1, typeName = Some ''N'', obj_fields = [(''id'', VNum 1), (''next'', VNum 2)]\<rparr>"
  let ?b = "\<lparr>oid = 2, typeName = Some ''N'', obj_fields = [(''id'', VNum 2)]\<rparr>"
  have "getField test_heap 1 ''next'' = VNum 2"
    using getField_contract [of test_heap 1 ?a "''next''" "VNum 2"] test_heap_objects(1) by simp
  moreover have "getField test_heap 2 ''next'' = VUndef \<and> evalAccess test_heap (VNum 2) ''next'' = Inr VNull"
    using getField_contract [of test_heap 2 ?b "''next''"] test_heap_objects(2) by simp
  moreover have "getField test_heap 3 ''next'' = VUndef \<and> evalAccess test_heap (VNum 3) ''next'' = Inr VNull"
    using getField_contract [of test_heap 3 _ "''next''"] test_heap_objects(3) by simp
  ultimately show ?thesis by simp
qed

text \<open>Claim C6 (optional null write). For a live object \<open>p\<close>, \<open>setField p f null false\<close> leaves \<open>p\<close>
  live, sets \<open>p.f\<close> to null, leaves every other field of \<open>p\<close> and every other object as it
  was, and deletes nothing: the same identifiers are live, and counter and registry are
  unchanged.\<close>

theorem setField_optional_null:
  assumes "getObject h p = Some parent"
  shows "getObject (setField h p f VNull False) p =
           Some (parent\<lparr>obj_fields := AList.update f VNull (obj_fields parent)\<rparr>) \<and>
         getField (setField h p f VNull False) p f = VNull \<and>
         (\<forall>g. g \<noteq> f \<longrightarrow> getField (setField h p f VNull False) p g = getField h p g) \<and>
         (\<forall>q. q \<noteq> p \<longrightarrow> getObject (setField h p f VNull False) q = getObject h q) \<and>
         map fst (objects (setField h p f VNull False)) = map fst (objects h) \<and>
         nextId (setField h p f VNull False) = nextId h \<and>
         types (setField h p f VNull False) = types h"
  using assms
  by (simp add: setField_def Let_def getObject_fields_set getField_def fields_get_def update_conv')

theorem setField_optional_null_witness:
  "getObject (setField test_heap 1 ''next'' VNull False) 1 =
     Some \<lparr>oid = 1, typeName = Some ''N'', obj_fields = [(''id'', VNum 1), (''next'', VNull)]\<rparr> \<and>
   getField (setField test_heap 1 ''next'' VNull False) 1 ''id'' = VNum 1 \<and>
   getObject (setField test_heap 1 ''next'' VNull False) 2 = getObject test_heap 2 \<and>
   map fst (objects (setField test_heap 1 ''next'' VNull False)) = map fst (objects test_heap)"
  using setField_optional_null [OF test_heap_objects(1), of "''next''"]
  by (simp add: getField_def fields_get_def test_heap_objects)

text \<open>Claim C2 (cascade trigger). For a live \<open>p\<close>, \<open>setField p name null true\<close> stores nothing: after
  removing the back-edge of the previous value it is \<open>deleteObjectCascade p\<close>, and \<open>p\<close> is
  not live when it returns.\<close>

theorem setField_mandatory_null:
  assumes "getObject h p = Some parent"
  shows "setField h p name VNull True =
           deleteObjectCascade (untrackIncomingIfObject h (getField h p name) (p, name)) p \<and>
         getObject (setField h p name VNull True) p = None"
proof -
  have "setField h p name VNull True =
           deleteObjectCascade (untrackIncomingIfObject h (getField h p name) (p, name)) p"
    using assms by (cases "fields_get parent name") (simp_all add: setField_def Let_def getField_def)
  then show ?thesis by (simp add: deleteObjectCascade_not_live)
qed

theorem setField_mandatory_null_witness:
  "getObject test_heap 2 \<noteq> None \<and> getObject (setField test_heap 2 ''id'' VNull True) 2 = None"
proof -
  from setField_mandatory_null [OF test_heap_objects(2), of "''id''"]
  have "getObject (setField test_heap 2 ''id'' VNull True) 2 = None" by (rule conjunct2)
  then show ?thesis by (simp add: test_heap_objects)
qed

text \<open>Claim C7 (termination). For every heap and every root identifier the loop
  \<open>while (toDelete.length)\<close> of \<open>deleteObjectCascade\<close>, started with the stack \<open>[root]\<close> and no
  visited object, reaches an empty stack after finitely many iterations, cycles or not;
  the heap it ends with is the result of \<open>deleteObjectCascade\<close>.\<close>

theorem deleteObjectCascade_terminates:
  "\<exists>visited. while_option (\<lambda>(h, toDelete, visited). toDelete \<noteq> []) cascadeIter (h, [root], {}) =
            Some (deleteObjectCascade h root, [], visited)"
  unfolding deleteObjectCascade_def by (rule cascadeLoop_while)







text \<open>Claim C3 as stated fails: the heap identifies references with numbers, so a number
  written before the object of that number exists is a link without a back-edge. In
  \<open>early_number_heap\<close> the objects 1 and 2 are live, \<open>1.link\<close> is 2 and \<open>2.link\<close> is 1, both
  mandatory; deleting 2 leaves 1 live.\<close>

theorem mandatory_cycle_counterexample:
  "mandatoryCycle early_number_heap [(1, ''link''), (2, ''link'')] \<and>
   1 \<in> live (deleteObjectCascade early_number_heap 2)"
  by (simp add: early_number_heap_facts)

text \<open>Claim C3, amended (mandatory cycles are destroyed). In every heap with a cycle of live
  objects in which every linking field is mandatory per the holder's schema, and every link
  has its back-edge in the reverse index under a field name without a dot (as \<open>setField\<close> and
  \<open>createObject\<close> record it when the object referred to is live at the write),
  \<open>deleteObjectCascade\<close> on any object of the cycle returns with every object of the cycle
  dead.\<close>

theorem mandatory_cycle_destroyed:
  assumes "mandatoryCycle h ns" and "recordedCycle h ns" and "r \<in> fst ` set ns"
  shows "\<forall>q \<in> fst ` set ns. q \<notin> live (deleteObjectCascade h r)"
proof
  fix q assume "q \<in> fst ` set ns"
  then obtain i where i: "i < length ns" "q = fst (ns ! i)" by (auto simp: in_set_conv_nth)
  from assms(3) obtain j where j: "j < length ns" "r = fst (ns ! j)" by (auto simp: in_set_conv_nth)
  let ?R = "{(c, p). \<exists>key. (c, p, key) \<in> recordedLinks h}"
  have link: "(fst (ns ! (Suc k mod length ns)), fst (ns ! k)) \<in> ?R" if "k < length ns" for k
  proof -
    obtain p f where pf: "ns ! k = (p, f)" by (cases "ns ! k")
    have "0 < length ns" using that by (cases ns) simp_all
    then have sk: "Suc k mod length ns < length ns" by (rule mod_less_divisor)
    obtain c g where cg: "ns ! (Suc k mod length ns) = (c, g)" by (cases "ns ! (Suc k mod length ns)")
    have "c \<in> live h" using mandatoryCycleD(1) [OF assms(1) sk cg] .
    moreover have "mandatoryFor h p f" using mandatoryCycleD(2) [OF assms(1) that pf] .
    moreover have "(p, f) \<in> set (incoming_of h c)" "dotfree f"
      using recordedCycleD [OF assms(2) that pf] by (simp_all add: cg)
    ultimately have "(c, p, f) \<in> recordedLinks h" by (simp add: recordedLinks_def)
    then show ?thesis using pf cg by auto
  qed
  have "(r, q) \<in> ?R\<^sup>*"
    unfolding i j using link i(1) j(1) by (rule cycle_nodes_connected)
  then show "q \<notin> live (deleteObjectCascade h r)" by (rule deleteObjectCascade_reaches)
qed

theorem mandatory_cycle_destroyed_witness:
  "mandatoryCycle cycle_heap [(1, ''link''), (2, ''link'')] \<and>
   recordedCycle cycle_heap [(1, ''link''), (2, ''link'')] \<and>
   1 \<in> live cycle_heap \<and> 2 \<in> live cycle_heap \<and>
   1 \<notin> live (deleteObjectCascade cycle_heap 1) \<and> 2 \<notin> live (deleteObjectCascade cycle_heap 1)"
  using mandatory_cycle_destroyed [OF cycle_heap_facts(1,2), of 1]
  by (simp add: cycle_heap_facts)

text \<open>Claim C5 as stated fails for the number that \<open>createArray\<close> stores as \<open>length\<close>: the array
  \<open>[1]\<close> of \<open>array_heap\<close> has length 1, object 1 is live, the reverse index of object 1 holds
  the element slot but not the \<open>length\<close> field, and deleting object 1 nulls the element and
  leaves \<open>length\<close> as it was.\<close>

theorem number_as_reference_counterexample:
  "1 \<in> live array_heap \<and> getField array_heap 2 ''length'' = VNum 1 \<and>
   (2, ''length'') \<notin> set (incoming_of array_heap 1) \<and>
   2 \<in> live (deleteObjectCascade array_heap 1) \<and>
   getField (deleteObjectCascade array_heap 1) 2 ''length'' = VNum 1 \<and>
   getField (deleteObjectCascade array_heap 1) 2 ''0'' = VNull"
  by (simp add: array_heap_index incoming_of_def)

text \<open>Claim C5, amended (numbers are references). When \<open>setField\<close> writes a number into a field,
  \<open>createObject\<close> installs one as an initial field, \<open>createArray\<close> stores one as an element or
  \<open>arrayPush\<close> pushes one, and the number is the identifier of an object that is live then,
  the back-edge (holder, field) is in the reverse index of that object (the \<open>length\<close> that
  \<open>createArray\<close> and \<open>arrayPush\<close> store is not recorded). In any heap, \<open>deleteObjectCascade n\<close>
  on a live \<open>n\<close> whose reverse index holds a back-edge \<open>(p, f)\<close> of a live holder, \<open>f\<close> without a
  dot, deletes \<open>p\<close> when the schema of \<open>p\<close> marks \<open>f\<close> mandatory, and leaves \<open>p.f\<close> null when
  \<open>p\<close> stays live.\<close>

theorem number_as_reference:
  "(p \<in> live h \<and> n \<in> live h \<longrightarrow> (p, name) \<in> set (incoming_of (setField h p name (VNum n) m) n)) \<and>
   (createObject h tn initial = (h1, i) \<and> getField h1 i k = VNum n \<and> n \<in> live h1 \<longrightarrow>
      (i, k) \<in> set (incoming_of h1 n)) \<and>
   (createArray h el = (h2, a) \<and> j < length el \<and> el ! j = VNum n \<and> n \<in> live h2 \<longrightarrow>
      (a, dec j) \<in> set (incoming_of h2 n)) \<and>
   (getObject h arr = Some obj \<and> typeName obj = Some ''__array__'' \<and> length_Number obj = Some len \<and>
    n \<in> live h \<longrightarrow>
      (\<exists>g. arrayPush h arr (VNum n) = Some g \<and> (arr, String_num len) \<in> set (incoming_of g n))) \<and>
   ((p, f) \<in> set (incoming_of h n) \<and> n \<in> live h \<and> p \<in> live h \<and> dotfree f \<longrightarrow>
      (mandatoryFor h p f \<longrightarrow> p \<notin> live (deleteObjectCascade h n)) \<and>
      (p \<in> live (deleteObjectCascade h n) \<longrightarrow> getField (deleteObjectCascade h n) p f = VNull))"
proof (intro conjI impI; (elim conjE)?)
  assume "p \<in> live h" "n \<in> live h"
  then show "(p, name) \<in> set (incoming_of (setField h p name (VNum n) m) n)"
    by (rule setField_records)
next
  assume c: "createObject h tn initial = (h1, i)" and g: "getField h1 i k = VNum n" and "n \<in> live h1"
  note o = createObject_obs [OF c]
  from g have "map_of (initialFields initial) k = Some (VNum n)"
    by (auto simp: getField_def fields_get_def o(5) split: option.splits)
  with \<open>n \<in> live h1\<close> show "(i, k) \<in> set (incoming_of h1 n)" by (simp add: o(4,6))
next
  assume c: "createArray h el = (h2, a)" and "j < length el" "el ! j = VNum n" "n \<in> live h2"
  note o = createArray_obs [OF c]
  from \<open>j < length el\<close> \<open>el ! j = VNum n\<close> \<open>n \<in> live h2\<close>
  show "(a, dec j) \<in> set (incoming_of h2 n)" by (auto simp: o(4,6))
next
  assume "getObject h arr = Some obj" "typeName obj = Some ''__array__''"
    "length_Number obj = Some len" "n \<in> live h"
  then show "\<exists>g. arrayPush h arr (VNum n) = Some g \<and> (arr, String_num len) \<in> set (incoming_of g n)"
    by (rule arrayPush_records)
next
  assume "(p, f) \<in> set (incoming_of h n)" "n \<in> live h" "dotfree f" "mandatoryFor h p f"
  then show "p \<notin> live (deleteObjectCascade h n)" by (rule deleteObjectCascade_deletes_holder)
next
  assume "(p, f) \<in> set (incoming_of h n)" "n \<in> live h" "p \<in> live h" "dotfree f"
    "p \<in> live (deleteObjectCascade h n)"
  then show "getField (deleteObjectCascade h n) p f = VNull" by (rule deleteObjectCascade_nulls)
qed

theorem number_as_reference_witness:
  "(1, ''other'') \<in> set (incoming_of (setField test_heap 1 ''other'' (VNum 2) False) 2) \<and>
   (3, ''ref'') \<in> set (incoming_of (fst (createObject test_heap None [(''ref'', VNum 1)])) 1) \<and>
   (2, ''0'') \<in> set (incoming_of array_heap 1) \<and>
   (\<exists>g. arrayPush array_heap 2 (VNum 1) = Some g \<and> (2, ''1'') \<in> set (incoming_of g 1)) \<and>
   2 \<notin> live (deleteObjectCascade cycle_heap 1) \<and>
   getField (deleteObjectCascade test_heap 2) 1 ''next'' = VNull"
proof -
  note r1 = number_as_reference [THEN conjunct1, rule_format]
  note r2 = number_as_reference [THEN conjunct2, THEN conjunct1, rule_format]
  note r3 = number_as_reference [THEN conjunct2, THEN conjunct2, THEN conjunct1, rule_format]
  note r4 = number_as_reference [THEN conjunct2, THEN conjunct2, THEN conjunct2, THEN conjunct1, rule_format]
  note r5 = number_as_reference [THEN conjunct2, THEN conjunct2, THEN conjunct2, THEN conjunct2, rule_format]
  have "1 \<in> live test_heap \<and> 2 \<in> live test_heap" by (simp add: test_heap_index)
  from r1 [OF this]
  have 1: "(1, ''other'') \<in> set (incoming_of (setField test_heap 1 ''other'' (VNum 2) False) 2)" .
  let ?h1 = "fst (createObject test_heap None [(''ref'', VNum 1)])"
  have "createObject test_heap None [(''ref'', VNum 1)] = (?h1, 3) \<and>
        getField ?h1 3 ''ref'' = VNum 1 \<and> 1 \<in> live ?h1"
    by code_simp
  from r2 [OF this] have 2: "(3, ''ref'') \<in> set (incoming_of ?h1 1)" .
  have "createArray (fst (createObject empty_heap None [])) [VNum 1] = (array_heap, 2) \<and>
        0 < length [VNum 1] \<and> [VNum 1] ! 0 = VNum 1 \<and> 1 \<in> live array_heap"
    by code_simp
  have dec_0: "dec 0 = ''0''" by code_simp
  from r3 [OF \<open>createArray _ _ = _ \<and> _\<close>] have 3: "(2, ''0'') \<in> set (incoming_of array_heap 1)"
    using dec_0 by simp
  have "getObject array_heap 2 =
          Some \<lparr>oid = 2, typeName = Some ''__array__'', obj_fields = [(''0'', VNum 1), (''length'', VNum 1)]\<rparr> \<and>
        typeName \<lparr>oid = 2, typeName = Some ''__array__'', obj_fields = [(''0'', VNum 1), (''length'', VNum 1)]\<rparr>
          = Some ''__array__'' \<and>
        length_Number \<lparr>oid = 2, typeName = Some ''__array__'', obj_fields = [(''0'', VNum 1), (''length'', VNum 1)]\<rparr>
          = Some 1 \<and>
        1 \<in> live array_heap"
    by code_simp
  from r4 [OF this]
  have 4: "\<exists>g. arrayPush array_heap 2 (VNum 1) = Some g \<and> (2, ''1'') \<in> set (incoming_of g 1)"
    by (simp add: array_heap_facts)
  have "(2, ''link'') \<in> set (incoming_of cycle_heap 1) \<and> 1 \<in> live cycle_heap \<and> 2 \<in> live cycle_heap \<and>
        dotfree ''link''"
    by code_simp
  from r5 [OF this, THEN conjunct1] have 5: "2 \<notin> live (deleteObjectCascade cycle_heap 1)"
    by (rule mp) code_simp
  have "(1, ''next'') \<in> set (incoming_of test_heap 2) \<and> 2 \<in> live test_heap \<and> 1 \<in> live test_heap \<and>
        dotfree ''next''"
    by code_simp
  from r5 [OF this, THEN conjunct2]
  have 6: "getField (deleteObjectCascade test_heap 2) 1 ''next'' = VNull"
    by (rule mp) code_simp
  from 1 2 3 4 5 6 show ?thesis by simp
qed




end
